theory Spec2Isabelle
  imports Main "HOL-Library.Word" "HOL-Library.AList"
begin

unbundle bit_operations_syntax

section \<open>Go runtime conventions shared by all packages\<close>

text \<open>
  A Go call either returns, panics, or blocks forever. A panic carries its message. A
  goroutine that locks a \<open>sync.Mutex\<close> it already holds blocks forever: the mutex is
  not reentrant.
\<close>

datatype fault = Panic string | Deadlock

text \<open>
  Go's \<open>int\<close> is a 64-bit two's complement integer on the supported platforms. Values
  are modelled as \<open>int\<close>; \<open>int64_wrap\<close> is the wrap-around of an arithmetic result,
  \<open>quo\<close> and \<open>rem\<close> are Go's \<open>/\<close> and \<open>%\<close>, which truncate towards zero.
\<close>

definition int64_wrap :: "int \<Rightarrow> int" where
  "int64_wrap x = (x + 2 ^ 63) mod 2 ^ 64 - 2 ^ 63"

definition quo :: "int \<Rightarrow> int \<Rightarrow> int" where
  "quo a b = sgn a * sgn b * (\<bar>a\<bar> div \<bar>b\<bar>)"

definition rem :: "int \<Rightarrow> int \<Rightarrow> int" where
  "rem a b = a - b * quo a b"

section \<open>Package bitmap\<close>

text \<open>
  \<open>type Bitmap struct { mutex sync.Mutex; bits []byte; size int }\<close>.
  The mutex is part of the state: \<open>True\<close> when it is held.
\<close>

record Bitmap =
  mutex :: bool
  bits :: "8 word list"
  size_bm :: int

text \<open>
  \<open>make([]byte, n)\<close> panics with \<open>makeslice: len out of range\<close> when \<open>n\<close> is negative
  or greater than the runtime's allocation limit \<open>maxAlloc\<close>, which is \<open>2^48\<close> bytes on
  linux/amd64. Below the limit the model has no bound on memory: an allocation that the
  system cannot satisfy ends the program with a fatal out-of-memory error, which is not
  a panic and is not represented.
\<close>

definition maxAlloc :: int where
  "maxAlloc = 2 ^ 48"

definition NewBitmap :: "int \<Rightarrow> fault + Bitmap" where
  "NewBitmap sz =
     (if sz < 0 then Inl (Panic ''bitmap size must be non-negative'')
      else
        let n = quo (int64_wrap (sz + 7)) 8 in
        if n < 0 \<or> n > maxAlloc then Inl (Panic ''runtime error: makeslice: len out of range'')
        else Inr \<lparr>mutex = False, bits = replicate (nat n) 0, size_bm = sz\<rparr>)"

definition validateIndex :: "Bitmap \<Rightarrow> int \<Rightarrow> fault + unit" where
  "validateIndex b index =
     (if index < 0 \<or> index \<ge> size_bm b then Inl (Panic ''bitmap index out of range'')
      else Inr ())"

definition Lock :: "Bitmap \<Rightarrow> fault + Bitmap" where
  "Lock b = (if mutex b then Inl Deadlock else Inr (b\<lparr>mutex := True\<rparr>))"

definition Unlock :: "Bitmap \<Rightarrow> Bitmap" where
  "Unlock b = b\<lparr>mutex := False\<rparr>"

text \<open>\<open>b.bits[index/8] |= 1 << (index % 8)\<close>, with the slice's bounds check.\<close>

definition set_bit_at :: "Bitmap \<Rightarrow> int \<Rightarrow> fault + Bitmap" where
  "set_bit_at b index =
     (let k = nat (quo index 8) in
      if quo index 8 < 0 \<or> k \<ge> length (bits b)
      then Inl (Panic ''runtime error: index out of range'')
      else Inr (b\<lparr>bits := (bits b)[k := (bits b ! k) OR push_bit (nat (rem index 8)) 1]\<rparr>))"

text \<open>\<open>b.bits[index/8] &^= 1 << (index % 8)\<close>.\<close>

definition clear_bit_at :: "Bitmap \<Rightarrow> int \<Rightarrow> fault + Bitmap" where
  "clear_bit_at b index =
     (let k = nat (quo index 8) in
      if quo index 8 < 0 \<or> k \<ge> length (bits b)
      then Inl (Panic ''runtime error: index out of range'')
      else Inr (b\<lparr>bits :=
        (bits b)[k := (bits b ! k) AND NOT (push_bit (nat (rem index 8)) 1)]\<rparr>))"

text \<open>\<open>b.bits[index/8]&(1<<(index%8)) != 0\<close>.\<close>

definition test_bit_at :: "Bitmap \<Rightarrow> int \<Rightarrow> fault + bool" where
  "test_bit_at b index =
     (let k = nat (quo index 8) in
      if quo index 8 < 0 \<or> k \<ge> length (bits b)
      then Inl (Panic ''runtime error: index out of range'')
      else Inr ((bits b ! k) AND push_bit (nat (rem index 8)) 1 \<noteq> 0))"

text \<open>
  \<open>Set\<close>, \<open>Clear\<close> and \<open>IsSet\<close>: validate the index, take the mutex, do the byte
  operation, release the mutex (deferred).
\<close>

definition Bitmap_Set :: "Bitmap \<Rightarrow> int \<Rightarrow> fault + Bitmap" where
  "Bitmap_Set b index =
     (case validateIndex b index of
        Inl e \<Rightarrow> Inl e
      | Inr _ \<Rightarrow>
          (case Lock b of
             Inl e \<Rightarrow> Inl e
           | Inr b1 \<Rightarrow>
               (case set_bit_at b1 index of
                  Inl e \<Rightarrow> Inl e
                | Inr b2 \<Rightarrow> Inr (Unlock b2))))"

definition Bitmap_Clear :: "Bitmap \<Rightarrow> int \<Rightarrow> fault + Bitmap" where
  "Bitmap_Clear b index =
     (case validateIndex b index of
        Inl e \<Rightarrow> Inl e
      | Inr _ \<Rightarrow>
          (case Lock b of
             Inl e \<Rightarrow> Inl e
           | Inr b1 \<Rightarrow>
               (case clear_bit_at b1 index of
                  Inl e \<Rightarrow> Inl e
                | Inr b2 \<Rightarrow> Inr (Unlock b2))))"

definition Bitmap_IsSet :: "Bitmap \<Rightarrow> int \<Rightarrow> fault + bool" where
  "Bitmap_IsSet b index =
     (case validateIndex b index of
        Inl e \<Rightarrow> Inl e
      | Inr _ \<Rightarrow>
          (case Lock b of
             Inl e \<Rightarrow> Inl e
           | Inr b1 \<Rightarrow> test_bit_at b1 index))"

text \<open>
  \<open>MSet\<close> takes the mutex and then calls \<open>Set\<close> for every index, in order, while it
  still holds it.
\<close>

fun MSet_loop :: "Bitmap \<Rightarrow> int list \<Rightarrow> fault + Bitmap" where
  "MSet_loop b [] = Inr b"
| "MSet_loop b (index # rest) =
     (case Bitmap_Set b index of
        Inl e \<Rightarrow> Inl e
      | Inr b' \<Rightarrow> MSet_loop b' rest)"

definition Bitmap_MSet :: "Bitmap \<Rightarrow> int list \<Rightarrow> fault + Bitmap" where
  "Bitmap_MSet b indexes =
     (case Lock b of
        Inl e \<Rightarrow> Inl e
      | Inr b1 \<Rightarrow>
          (case MSet_loop b1 indexes of
             Inl e \<Rightarrow> Inl e
           | Inr b2 \<Rightarrow> Inr (Unlock b2)))"

text \<open>A history of single-bit writes, applied in order.\<close>

datatype bitmap_op = OpSet int | OpClear int

fun Bitmap_run :: "Bitmap \<Rightarrow> bitmap_op list \<Rightarrow> fault + Bitmap" where
  "Bitmap_run b [] = Inr b"
| "Bitmap_run b (OpSet i # ops) =
     (case Bitmap_Set b i of Inl e \<Rightarrow> Inl e | Inr b' \<Rightarrow> Bitmap_run b' ops)"
| "Bitmap_run b (OpClear i # ops) =
     (case Bitmap_Clear b i of Inl e \<Rightarrow> Inl e | Inr b' \<Rightarrow> Bitmap_run b' ops)"

subsection \<open>Bitmap: single-bit reads and writes\<close>

lemma quo_nonneg: "0 \<le> a \<Longrightarrow> quo a 8 = a div 8"
  by (cases "a = 0") (simp_all add: quo_def)

lemma rem_nonneg: "0 \<le> a \<Longrightarrow> rem a 8 = a mod 8"
  by (simp add: rem_def quo_nonneg minus_mult_div_eq_mod)

lemma bit_set_mask: "bit ((w :: 8 word) OR 2 ^ n) m = (bit w m \<or> (m = n \<and> n < 8))"
  by (auto simp add: bit_simps)

lemma bit_clear_mask: "bit ((w :: 8 word) AND NOT (2 ^ n)) m = (bit w m \<and> m \<noteq> n)"
  by (auto simp add: bit_simps dest: bit_imp_le_length)

text \<open>Bit \<open>i\<close> of the byte array, and the shape every constructed bitmap keeps.\<close>

definition bm_bit :: "Bitmap \<Rightarrow> int \<Rightarrow> bool" where
  "bm_bit b i = bit (bits b ! nat (i div 8)) (nat (i mod 8))"

definition Bitmap_wf :: "Bitmap \<Rightarrow> bool" where
  "Bitmap_wf b = (\<not> mutex b \<and> 0 \<le> size_bm b \<and> size_bm b \<le> 8 * int (length (bits b)))"

lemma int64_wrap_id: "0 \<le> x \<Longrightarrow> x < 2 ^ 63 \<Longrightarrow> int64_wrap x = x"
  by (simp add: int64_wrap_def)

lemma NewBitmap_ok:
  assumes "0 \<le> sz" "(sz + 7) div 8 \<le> maxAlloc"
  shows "NewBitmap sz = Inr \<lparr>mutex = False, bits = replicate (nat ((sz + 7) div 8)) 0, size_bm = sz\<rparr>"
proof -
  have "sz + 7 < 8 * (maxAlloc + 1)" using assms(2) by presburger
  then have "sz + 7 < 2 ^ 63" by (simp add: maxAlloc_def)
  then have "int64_wrap (sz + 7) = sz + 7"
    using assms(1) by (simp add: int64_wrap_id)
  moreover have "quo (sz + 7) 8 = (sz + 7) div 8"
    using assms by (simp add: quo_nonneg)
  moreover have "0 \<le> (sz + 7) div 8" using assms by simp
  ultimately show ?thesis using assms by (simp add: NewBitmap_def Let_def)
qed

text \<open>For the last seven sizes \<open>size + 7\<close> wraps around and \<open>make\<close> panics.\<close>

lemma NewBitmap_overflow:
  assumes "2 ^ 63 - 7 \<le> sz" "sz < 2 ^ 63"
  shows "NewBitmap sz = Inl (Panic ''runtime error: makeslice: len out of range'')"
proof -
  have "(sz + 7 + 2 ^ 63) mod 2 ^ 64 = (sz + 7 + 2 ^ 63 - 2 ^ 64) mod 2 ^ 64"
    by (simp only: minus_mod_self2)
  also have "\<dots> = sz + 7 + 2 ^ 63 - 2 ^ 64"
    using assms by (intro mod_pos_pos_trivial) simp_all
  finally have w: "int64_wrap (sz + 7) = sz + 7 - 2 ^ 64"
    by (simp add: int64_wrap_def)
  have "sz + 7 - 2 ^ 64 < 0" using assms by simp
  moreover have "8 \<le> \<bar>sz + 7 - 2 ^ 64\<bar>" using assms by simp
  then have "0 < \<bar>sz + 7 - 2 ^ 64\<bar> div 8"
    by (simp add: pos_imp_zdiv_pos_iff)
  ultimately have "quo (sz + 7 - 2 ^ 64) 8 < 0"
    by (simp add: quo_def)
  with w assms show ?thesis by (simp add: NewBitmap_def Let_def)
qed

text \<open>A byte count above the allocation limit: \<open>make\<close> panics.\<close>

lemma NewBitmap_too_large:
  assumes "0 \<le> sz" "sz < 2 ^ 63 - 7" "maxAlloc < (sz + 7) div 8"
  shows "NewBitmap sz = Inl (Panic ''runtime error: makeslice: len out of range'')"
proof -
  have "int64_wrap (sz + 7) = sz + 7" using assms(1,2) by (simp add: int64_wrap_id)
  moreover have "quo (sz + 7) 8 = (sz + 7) div 8" using assms(1) by (simp add: quo_nonneg)
  ultimately show ?thesis using assms by (simp add: NewBitmap_def Let_def)
qed

text \<open>A bitmap that was constructed, with a size that is an \<open>int\<close>.\<close>

lemma NewBitmap_wf:
  assumes "sz < 2 ^ 63" "NewBitmap sz = Inr b"
  shows "Bitmap_wf b \<and> size_bm b = sz \<and> (\<forall>i. 0 \<le> i \<and> i < sz \<longrightarrow> \<not> bm_bit b i)"
proof -
  from assms(2) have nn: "0 \<le> sz"
    by (cases "sz < 0") (simp_all add: NewBitmap_def)
  have lt: "sz < 2 ^ 63 - 7"
  proof (rule ccontr)
    assume "\<not> sz < 2 ^ 63 - 7"
    then have "2 ^ 63 - 7 \<le> sz" by simp
    from NewBitmap_overflow [OF this assms(1)] assms(2) show False by simp
  qed
  have le: "(sz + 7) div 8 \<le> maxAlloc"
  proof (rule ccontr)
    assume "\<not> (sz + 7) div 8 \<le> maxAlloc"
    then have "maxAlloc < (sz + 7) div 8" by simp
    from NewBitmap_too_large [OF nn lt this] assms(2) show False by simp
  qed
  have b: "b = \<lparr>mutex = False, bits = replicate (nat ((sz + 7) div 8)) 0, size_bm = sz\<rparr>"
    using NewBitmap_ok [OF nn le] assms(2) by simp
  have "sz \<le> 8 * ((sz + 7) div 8)" by presburger
  then have wf: "Bitmap_wf b" using nn by (simp add: b Bitmap_wf_def)
  have "\<not> bm_bit b i" if "0 \<le> i" "i < sz" for i
  proof -
    have "i div 8 < (sz + 7) div 8" using that by presburger
    then have "nat (i div 8) < nat ((sz + 7) div 8)" using that by simp
    then show ?thesis by (simp add: bm_bit_def b)
  qed
  with wf show ?thesis by (simp add: b)
qed

lemma NewBitmap_negative:
  "sz < 0 \<Longrightarrow> NewBitmap sz = Inl (Panic ''bitmap size must be non-negative'')"
  by (simp add: NewBitmap_def)

lemma index_in_bits:
  assumes "Bitmap_wf b" "0 \<le> i" "i < size_bm b"
  shows "nat (i div 8) < length (bits b)"
proof -
  have "i < 8 * int (length (bits b))" using assms by (simp add: Bitmap_wf_def)
  then have "i div 8 < int (length (bits b))" by presburger
  then show ?thesis using assms(2) by simp
qed

lemma Bitmap_IsSet_wf:
  assumes "Bitmap_wf b" "0 \<le> i" "i < size_bm b"
  shows "Bitmap_IsSet b i = Inr (bm_bit b i)"
  using assms index_in_bits [OF assms]
  by (simp add: Bitmap_IsSet_def validateIndex_def Lock_def test_bit_at_def Bitmap_wf_def
      quo_nonneg rem_nonneg and_exp_eq_0_iff_not_bit bm_bit_def Let_def)

lemma Bitmap_Set_wf:
  assumes "Bitmap_wf b" "0 \<le> i" "i < size_bm b"
  shows "\<exists>b'. Bitmap_Set b i = Inr b' \<and> Bitmap_wf b' \<and> size_bm b' = size_bm b \<and>
           (\<forall>j. 0 \<le> j \<longrightarrow> bm_bit b' j = (j = i \<or> bm_bit b j))"
proof -
  let ?k = "nat (i div 8)"
  let ?b' = "b\<lparr>bits := (bits b)[?k := (bits b ! ?k) OR push_bit (nat (i mod 8)) 1]\<rparr>"
  have k: "?k < length (bits b)" by (rule index_in_bits [OF assms])
  have eq: "Bitmap_Set b i = Inr ?b'"
    using assms k
    by (simp add: Bitmap_Set_def validateIndex_def Lock_def set_bit_at_def Unlock_def
        Bitmap_wf_def quo_nonneg rem_nonneg Let_def)
  have wf: "Bitmap_wf ?b'" using assms(1) by (simp add: Bitmap_wf_def)
  have fr: "bm_bit ?b' j = (j = i \<or> bm_bit b j)" if "0 \<le> j" for j
  proof (cases "nat (j div 8) = ?k")
    case True
    then have d: "j div 8 = i div 8" using that assms(2) by simp
    have m: "(nat (j mod 8) = nat (i mod 8)) = (j = i)"
    proof -
      have "(j mod 8 = i mod 8) = (j = i)" using d by (metis mult_div_mod_eq)
      then show ?thesis by (simp add: eq_nat_nat_iff)
    qed
    have lt: "nat (i mod 8) < 8" by simp
    show ?thesis using True k m lt
      by (auto simp add: bm_bit_def bit_set_mask)
  next
    case False
    then have "j \<noteq> i" by auto
    with False show ?thesis by (simp add: bm_bit_def)
  qed
  from eq wf fr show ?thesis by auto
qed

lemma Bitmap_Clear_wf:
  assumes "Bitmap_wf b" "0 \<le> i" "i < size_bm b"
  shows "\<exists>b'. Bitmap_Clear b i = Inr b' \<and> Bitmap_wf b' \<and> size_bm b' = size_bm b \<and>
           (\<forall>j. 0 \<le> j \<longrightarrow> bm_bit b' j = (j \<noteq> i \<and> bm_bit b j))"
proof -
  let ?k = "nat (i div 8)"
  let ?b' = "b\<lparr>bits := (bits b)[?k := (bits b ! ?k) AND NOT (push_bit (nat (i mod 8)) 1)]\<rparr>"
  have k: "?k < length (bits b)" by (rule index_in_bits [OF assms])
  have eq: "Bitmap_Clear b i = Inr ?b'"
    using assms k
    by (simp add: Bitmap_Clear_def validateIndex_def Lock_def clear_bit_at_def Unlock_def
        Bitmap_wf_def quo_nonneg rem_nonneg Let_def)
  have wf: "Bitmap_wf ?b'" using assms(1) by (simp add: Bitmap_wf_def)
  have fr: "bm_bit ?b' j = (j \<noteq> i \<and> bm_bit b j)" if "0 \<le> j" for j
  proof (cases "nat (j div 8) = ?k")
    case True
    then have d: "j div 8 = i div 8" using that assms(2) by simp
    have m: "(nat (j mod 8) = nat (i mod 8)) = (j = i)"
    proof -
      have "(j mod 8 = i mod 8) = (j = i)" using d by (metis mult_div_mod_eq)
      then show ?thesis by (simp add: eq_nat_nat_iff)
    qed
    show ?thesis using True k m
      by (auto simp add: bm_bit_def bit_clear_mask)
  next
    case False
    then have "j \<noteq> i" by auto
    with False show ?thesis by (simp add: bm_bit_def)
  qed
  from eq wf fr show ?thesis by auto
qed

lemma Bitmap_Set_fault:
  "Bitmap_Set b i = Inr b' \<Longrightarrow> 0 \<le> i \<and> i < size_bm b"
  by (auto simp add: Bitmap_Set_def validateIndex_def split: if_splits sum.splits)

lemma Bitmap_Clear_fault:
  "Bitmap_Clear b i = Inr b' \<Longrightarrow> 0 \<le> i \<and> i < size_bm b"
  by (auto simp add: Bitmap_Clear_def validateIndex_def split: if_splits sum.splits)

lemma Bitmap_run_wf:
  "Bitmap_wf b \<Longrightarrow> Bitmap_run b ops = Inr b' \<Longrightarrow> Bitmap_wf b' \<and> size_bm b' = size_bm b"
proof (induction b ops rule: Bitmap_run.induct)
  case (1 b)
  then show ?case by simp
next
  case (2 b i ops)
  from "2.prems"(2) obtain b1 where s: "Bitmap_Set b i = Inr b1" and r: "Bitmap_run b1 ops = Inr b'"
    by (auto split: sum.splits)
  from Bitmap_Set_fault [OF s] have "0 \<le> i" "i < size_bm b" by simp_all
  from Bitmap_Set_wf [OF "2.prems"(1) this] s
  have "Bitmap_wf b1 \<and> size_bm b1 = size_bm b" by auto
  with "2.IH" [OF s] r show ?case by simp
next
  case (3 b i ops)
  from "3.prems"(2) obtain b1 where s: "Bitmap_Clear b i = Inr b1" and r: "Bitmap_run b1 ops = Inr b'"
    by (auto split: sum.splits)
  from Bitmap_Clear_fault [OF s] have "0 \<le> i" "i < size_bm b" by simp_all
  from Bitmap_Clear_wf [OF "3.prems"(1) this] s
  have "Bitmap_wf b1 \<and> size_bm b1 = size_bm b" by auto
  with "3.IH" [OF s] r show ?case by simp
qed

text \<open>
  C10. For every bitmap that was constructed, with a size that is an \<open>int\<close>, and every
  index \<open>i\<close> in range: the fresh bitmap has \<open>IsSet(i) = false\<close>; in every state reached
  by \<open>Set\<close> and \<open>Clear\<close> calls, \<open>Set(i)\<close> returns and makes \<open>IsSet(i)\<close> true, a
  following \<open>Clear(i)\<close> makes it false again, and both leave \<open>IsSet(j)\<close> as it was for
  every other index in range. Construction with a negative size panics.
\<close>

theorem Bitmap_set_clear_isset:
  assumes "sz < 2 ^ 63" "NewBitmap sz = Inr b0" "0 \<le> i" "i < sz"
  shows "Bitmap_IsSet b0 i = Inr False \<and>
    (\<forall>ops b. Bitmap_run b0 ops = Inr b \<longrightarrow>
       (\<exists>b1. Bitmap_Set b i = Inr b1 \<and> Bitmap_IsSet b1 i = Inr True \<and>
          (\<forall>j. 0 \<le> j \<and> j < sz \<and> j \<noteq> i \<longrightarrow> Bitmap_IsSet b1 j = Bitmap_IsSet b j) \<and>
          (\<exists>b2. Bitmap_Clear b1 i = Inr b2 \<and> Bitmap_IsSet b2 i = Inr False \<and>
             (\<forall>j. 0 \<le> j \<and> j < sz \<and> j \<noteq> i \<longrightarrow> Bitmap_IsSet b2 j = Bitmap_IsSet b1 j))) \<and>
       (\<exists>b3. Bitmap_Clear b i = Inr b3 \<and> Bitmap_IsSet b3 i = Inr False \<and>
          (\<forall>j. 0 \<le> j \<and> j < sz \<and> j \<noteq> i \<longrightarrow> Bitmap_IsSet b3 j = Bitmap_IsSet b j))) \<and>
    (\<forall>neg. neg < 0 \<longrightarrow> NewBitmap neg = Inl (Panic ''bitmap size must be non-negative''))"
proof -
  note b0 = assms(2)
  from NewBitmap_wf [OF assms(1) b0]
  have wf0: "Bitmap_wf b0" and sz0: "size_bm b0 = sz" and z0: "\<not> bm_bit b0 i"
    using assms(3,4) by auto
  have fresh: "Bitmap_IsSet b0 i = Inr False"
    using Bitmap_IsSet_wf [OF wf0 assms(3)] assms(4) sz0 z0 by simp
  have step: "(\<exists>b1. Bitmap_Set b i = Inr b1 \<and> Bitmap_IsSet b1 i = Inr True \<and>
          (\<forall>j. 0 \<le> j \<and> j < sz \<and> j \<noteq> i \<longrightarrow> Bitmap_IsSet b1 j = Bitmap_IsSet b j) \<and>
          (\<exists>b2. Bitmap_Clear b1 i = Inr b2 \<and> Bitmap_IsSet b2 i = Inr False \<and>
             (\<forall>j. 0 \<le> j \<and> j < sz \<and> j \<noteq> i \<longrightarrow> Bitmap_IsSet b2 j = Bitmap_IsSet b1 j))) \<and>
       (\<exists>b3. Bitmap_Clear b i = Inr b3 \<and> Bitmap_IsSet b3 i = Inr False \<and>
          (\<forall>j. 0 \<le> j \<and> j < sz \<and> j \<noteq> i \<longrightarrow> Bitmap_IsSet b3 j = Bitmap_IsSet b j))"
    if run: "Bitmap_run b0 ops = Inr b" for ops b
  proof -
    from Bitmap_run_wf [OF wf0 run] sz0 have wf: "Bitmap_wf b" and sz: "size_bm b = sz" by simp_all
    have i: "i < size_bm b" using assms(4) sz by simp
    from Bitmap_Set_wf [OF wf assms(3) i] obtain b1 where
      s1: "Bitmap_Set b i = Inr b1" and wf1: "Bitmap_wf b1" and sz1: "size_bm b1 = sz"
      and f1: "\<And>j. 0 \<le> j \<Longrightarrow> bm_bit b1 j = (j = i \<or> bm_bit b j)"
      using sz by auto
    have i1: "i < size_bm b1" using assms(4) sz1 by simp
    from Bitmap_Clear_wf [OF wf1 assms(3) i1] obtain b2 where
      s2: "Bitmap_Clear b1 i = Inr b2" and wf2: "Bitmap_wf b2" and sz2: "size_bm b2 = sz"
      and f2: "\<And>j. 0 \<le> j \<Longrightarrow> bm_bit b2 j = (j \<noteq> i \<and> bm_bit b1 j)"
      using sz1 by auto
    from Bitmap_Clear_wf [OF wf assms(3) i] obtain b3 where
      s3: "Bitmap_Clear b i = Inr b3" and wf3: "Bitmap_wf b3" and sz3: "size_bm b3 = sz"
      and f3: "\<And>j. 0 \<le> j \<Longrightarrow> bm_bit b3 j = (j \<noteq> i \<and> bm_bit b j)"
      using sz by auto
    have rd: "Bitmap_IsSet c j = Inr (bm_bit c j)"
      if "Bitmap_wf c" "size_bm c = sz" "0 \<le> j" "j < sz" for c j
      using Bitmap_IsSet_wf [of c j] that by simp
    have a1: "Bitmap_IsSet b1 i = Inr True"
      using rd [OF wf1 sz1 assms(3,4)] f1 [OF assms(3)] by simp
    have a2: "Bitmap_IsSet b2 i = Inr False"
      using rd [OF wf2 sz2 assms(3,4)] f2 [OF assms(3)] by simp
    have a3: "Bitmap_IsSet b3 i = Inr False"
      using rd [OF wf3 sz3 assms(3,4)] f3 [OF assms(3)] by simp
    have g1: "\<forall>j. 0 \<le> j \<and> j < sz \<and> j \<noteq> i \<longrightarrow> Bitmap_IsSet b1 j = Bitmap_IsSet b j"
      using rd [OF wf1 sz1] rd [OF wf sz] f1 by simp
    have g2: "\<forall>j. 0 \<le> j \<and> j < sz \<and> j \<noteq> i \<longrightarrow> Bitmap_IsSet b2 j = Bitmap_IsSet b1 j"
      using rd [OF wf2 sz2] rd [OF wf1 sz1] f2 by simp
    have g3: "\<forall>j. 0 \<le> j \<and> j < sz \<and> j \<noteq> i \<longrightarrow> Bitmap_IsSet b3 j = Bitmap_IsSet b j"
      using rd [OF wf3 sz3] rd [OF wf sz] f3 by simp
    from s1 a1 g1 s2 a2 g2 s3 a3 g3 show ?thesis by blast
  qed
  from fresh step NewBitmap_negative show ?thesis by blast
qed

definition bitmap20 :: Bitmap where
  "bitmap20 = \<lparr>mutex = False, bits = [0, 0, 0], size_bm = 20\<rparr>"

theorem Bitmap_set_clear_isset_witness:
  "(20::int) < 2 ^ 63 \<and> NewBitmap 20 = Inr bitmap20 \<and> (0::int) \<le> 5 \<and> (5::int) < 20 \<and>
   Bitmap_IsSet bitmap20 5 = Inr False \<and>
   Bitmap_run bitmap20 [OpSet 3, OpClear 4] = Inr (bitmap20\<lparr>bits := [8, 0, 0]\<rparr>) \<and>
   (\<exists>b1. Bitmap_Set (bitmap20\<lparr>bits := [8, 0, 0]\<rparr>) 5 = Inr b1 \<and> Bitmap_IsSet b1 5 = Inr True \<and>
      Bitmap_IsSet b1 3 = Bitmap_IsSet (bitmap20\<lparr>bits := [8, 0, 0]\<rparr>) 3 \<and>
      (\<exists>b2. Bitmap_Clear b1 5 = Inr b2 \<and> Bitmap_IsSet b2 5 = Inr False \<and>
         Bitmap_IsSet b2 3 = Bitmap_IsSet b1 3))"
proof -
  have h: "(20::int) < 2 ^ 63" "(0::int) \<le> 5" "(5::int) < 20" by simp_all
  have n: "NewBitmap 20 = Inr bitmap20"
    by (simp add: NewBitmap_def maxAlloc_def int64_wrap_def quo_def Let_def numeral_3_eq_3
        bitmap20_def)
  let ?b = "bitmap20\<lparr>bits := [8, 0, 0]\<rparr>"
  have r: "Bitmap_run bitmap20 [OpSet 3, OpClear 4] = Inr ?b"
    by (simp add: Bitmap_Set_def Bitmap_Clear_def validateIndex_def Lock_def Unlock_def
        set_bit_at_def clear_bit_at_def quo_def rem_def Let_def bitmap20_def)
  from Bitmap_set_clear_isset [OF h(1) n h(2,3)] have
    f: "Bitmap_IsSet bitmap20 5 = Inr False" and
    st: "\<forall>ops b. Bitmap_run bitmap20 ops = Inr b \<longrightarrow>
       (\<exists>b1. Bitmap_Set b 5 = Inr b1 \<and> Bitmap_IsSet b1 5 = Inr True \<and>
          (\<forall>j. 0 \<le> j \<and> j < 20 \<and> j \<noteq> 5 \<longrightarrow> Bitmap_IsSet b1 j = Bitmap_IsSet b j) \<and>
          (\<exists>b2. Bitmap_Clear b1 5 = Inr b2 \<and> Bitmap_IsSet b2 5 = Inr False \<and>
             (\<forall>j. 0 \<le> j \<and> j < 20 \<and> j \<noteq> 5 \<longrightarrow> Bitmap_IsSet b2 j = Bitmap_IsSet b1 j))) \<and>
       (\<exists>b3. Bitmap_Clear b 5 = Inr b3 \<and> Bitmap_IsSet b3 5 = Inr False \<and>
          (\<forall>j. 0 \<le> j \<and> j < 20 \<and> j \<noteq> 5 \<longrightarrow> Bitmap_IsSet b3 j = Bitmap_IsSet b j))"
    by blast+
  from st r obtain b1 b2 where
    s1: "Bitmap_Set ?b 5 = Inr b1" "Bitmap_IsSet b1 5 = Inr True" and
    g1: "\<forall>j. 0 \<le> j \<and> j < 20 \<and> j \<noteq> 5 \<longrightarrow> Bitmap_IsSet b1 j = Bitmap_IsSet ?b j" and
    s2: "Bitmap_Clear b1 5 = Inr b2" "Bitmap_IsSet b2 5 = Inr False" and
    g2: "\<forall>j. 0 \<le> j \<and> j < 20 \<and> j \<noteq> 5 \<longrightarrow> Bitmap_IsSet b2 j = Bitmap_IsSet b1 j"
    by blast
  from g1 have g1': "Bitmap_IsSet b1 3 = Bitmap_IsSet ?b 3" by simp
  from g2 have g2': "Bitmap_IsSet b2 3 = Bitmap_IsSet b1 3" by simp
  have e: "\<exists>b1. Bitmap_Set ?b 5 = Inr b1 \<and> Bitmap_IsSet b1 5 = Inr True \<and>
        Bitmap_IsSet b1 3 = Bitmap_IsSet ?b 3 \<and>
        (\<exists>b2. Bitmap_Clear b1 5 = Inr b2 \<and> Bitmap_IsSet b2 5 = Inr False \<and>
           Bitmap_IsSet b2 3 = Bitmap_IsSet b1 3)"
    using s1 s2 g1' g2' by blast
  from h n f r e show ?thesis by blast
qed

section \<open>Package bloom\<close>

subsection \<open>The byte-keyed filter\<close>

text \<open>
  The two base hashes are \<open>fnv.New32a()\<close> and \<open>fnv.New32()\<close> of the standard library:
  32-bit FNV-1a (xor the byte, then multiply by the prime) and FNV-1 (multiply, then
  xor), both starting from the offset basis.
\<close>

definition offset32 :: "32 word" where
  "offset32 = 2166136261"

definition prime32 :: "32 word" where
  "prime32 = 16777619"

definition fnv32a_sum :: "8 word list \<Rightarrow> 32 word" where
  "fnv32a_sum data = foldl (\<lambda>h c. (h XOR ucast c) * prime32) offset32 data"

definition fnv32_sum :: "8 word list \<Rightarrow> 32 word" where
  "fnv32_sum data = foldl (\<lambda>h c. (h * prime32) XOR ucast c) offset32 data"

record BloomFilter =
  bitmap :: Bitmap
  hashFunc :: "(8 word list \<Rightarrow> 32 word) list"
  size_bf :: "32 word"

text \<open>
  \<open>createHashFunctions(k)\<close>: function \<open>i\<close> is \<open>base[i % 2](data) * uint32(i/2 + 1)\<close>,
  for \<open>i = 0, ..., k-1\<close>.
\<close>

definition base_hashes :: "(8 word list \<Rightarrow> 32 word) list" where
  "base_hashes = [fnv32a_sum, fnv32_sum]"

definition createHashFunctions :: "32 word \<Rightarrow> (8 word list \<Rightarrow> 32 word) list" where
  "createHashFunctions k =
     map (\<lambda>i. \<lambda>data. (base_hashes ! (i mod length base_hashes)) data
                      * of_nat (i div length base_hashes + 1))
         [0..<unat k]"

text \<open>
  \<open>New(n, p)\<close> calls \<open>estimateParameters(n, p)\<close>, which computes the bit count \<open>m\<close> and
  the hash count \<open>k\<close> in \<open>float64\<close> arithmetic. That computation is not modelled:
  \<open>New_mk m k\<close> is the rest of \<open>New\<close>, from the point where \<open>m\<close> and \<open>k\<close> are known.
\<close>

definition New_mk :: "32 word \<Rightarrow> 32 word \<Rightarrow> fault + BloomFilter" where
  "New_mk m k0 =
     (let k = (if k0 > 8 then 8 else k0) in
      case NewBitmap (uint m) of
        Inl e \<Rightarrow> Inl e
      | Inr b \<Rightarrow> Inr \<lparr>bitmap = b, hashFunc = createHashFunctions k, size_bf = m\<rparr>)"

text \<open>
  \<open>Add\<close>: for every hash function in order, \<open>h := fn(data) % bf.size\<close> (a division by
  zero panics) and \<open>bf.bitmap.Set(int(h))\<close>.
\<close>

fun Add_loop ::
  "BloomFilter \<Rightarrow> (8 word list \<Rightarrow> 32 word) list \<Rightarrow> 8 word list \<Rightarrow> fault + BloomFilter" where
  "Add_loop bf [] data = Inr bf"
| "Add_loop bf (fn # fns) data =
     (if size_bf bf = 0 then Inl (Panic ''runtime error: integer divide by zero'')
      else
        case Bitmap_Set (bitmap bf) (uint (fn data mod size_bf bf)) of
          Inl e \<Rightarrow> Inl e
        | Inr b \<Rightarrow> Add_loop (bf\<lparr>bitmap := b\<rparr>) fns data)"

definition BloomFilter_Add :: "BloomFilter \<Rightarrow> 8 word list \<Rightarrow> fault + BloomFilter" where
  "BloomFilter_Add bf data = Add_loop bf (hashFunc bf) data"

text \<open>\<open>Contains\<close>: false at the first hash function whose bit is not set.\<close>

fun Contains_loop ::
  "BloomFilter \<Rightarrow> (8 word list \<Rightarrow> 32 word) list \<Rightarrow> 8 word list \<Rightarrow> fault + bool" where
  "Contains_loop bf [] data = Inr True"
| "Contains_loop bf (fn # fns) data =
     (if size_bf bf = 0 then Inl (Panic ''runtime error: integer divide by zero'')
      else
        case Bitmap_IsSet (bitmap bf) (uint (fn data mod size_bf bf)) of
          Inl e \<Rightarrow> Inl e
        | Inr isset \<Rightarrow> if \<not> isset then Inr False else Contains_loop bf fns data)"

definition BloomFilter_Contains :: "BloomFilter \<Rightarrow> 8 word list \<Rightarrow> fault + bool" where
  "BloomFilter_Contains bf data = Contains_loop bf (hashFunc bf) data"

text \<open>A sequence of \<open>Add\<close> calls.\<close>

fun BloomFilter_AddAll :: "BloomFilter \<Rightarrow> 8 word list list \<Rightarrow> fault + BloomFilter" where
  "BloomFilter_AddAll bf [] = Inr bf"
| "BloomFilter_AddAll bf (d # ds) =
     (case BloomFilter_Add bf d of Inl e \<Rightarrow> Inl e | Inr bf' \<Rightarrow> BloomFilter_AddAll bf' ds)"

subsection \<open>The int64-keyed filter\<close>

record Int64BloomFilter =
  bitmap64 :: Bitmap
  hashFunc64 :: "(64 word \<Rightarrow> 32 word) list"
  size_bf64 :: "32 word"

text \<open>
  The three base functions: the high 32 bits, the low 32 bits, and
  \<open>uint32(uint64(data)>>16) ^ uint32(data)\<close>.
\<close>

definition base_hashes64 :: "(64 word \<Rightarrow> 32 word) list" where
  "base_hashes64 =
     [\<lambda>data. ucast (drop_bit 32 data),
      \<lambda>data. ucast data,
      \<lambda>data. ucast (drop_bit 16 data) XOR ucast data]"

definition createInt64HashFunctions :: "32 word \<Rightarrow> (64 word \<Rightarrow> 32 word) list" where
  "createInt64HashFunctions k =
     map (\<lambda>i. \<lambda>data. (base_hashes64 ! (i mod length base_hashes64)) data
                      * of_nat (i div length base_hashes64 + 1))
         [0..<unat k]"

definition NewInt64Bloom_mk :: "32 word \<Rightarrow> 32 word \<Rightarrow> fault + Int64BloomFilter" where
  "NewInt64Bloom_mk m k0 =
     (let k = (if k0 > 8 then 8 else k0) in
      case NewBitmap (uint m) of
        Inl e \<Rightarrow> Inl e
      | Inr b \<Rightarrow> Inr \<lparr>bitmap64 = b, hashFunc64 = createInt64HashFunctions k, size_bf64 = m\<rparr>)"

fun Add64_loop ::
  "Int64BloomFilter \<Rightarrow> (64 word \<Rightarrow> 32 word) list \<Rightarrow> 64 word \<Rightarrow> fault + Int64BloomFilter" where
  "Add64_loop bf [] data = Inr bf"
| "Add64_loop bf (fn # fns) data =
     (if size_bf64 bf = 0 then Inl (Panic ''runtime error: integer divide by zero'')
      else
        case Bitmap_Set (bitmap64 bf) (uint (fn data mod size_bf64 bf)) of
          Inl e \<Rightarrow> Inl e
        | Inr b \<Rightarrow> Add64_loop (bf\<lparr>bitmap64 := b\<rparr>) fns data)"

definition Int64BloomFilter_Add :: "Int64BloomFilter \<Rightarrow> 64 word \<Rightarrow> fault + Int64BloomFilter" where
  "Int64BloomFilter_Add bf data = Add64_loop bf (hashFunc64 bf) data"

fun Int64BloomFilter_AddAll ::
  "Int64BloomFilter \<Rightarrow> 64 word list \<Rightarrow> fault + Int64BloomFilter" where
  "Int64BloomFilter_AddAll bf [] = Inr bf"
| "Int64BloomFilter_AddAll bf (d # ds) =
     (case Int64BloomFilter_Add bf d of
        Inl e \<Rightarrow> Inl e
      | Inr bf' \<Rightarrow> Int64BloomFilter_AddAll bf' ds)"

fun Contains64_loop ::
  "Int64BloomFilter \<Rightarrow> (64 word \<Rightarrow> 32 word) list \<Rightarrow> 64 word \<Rightarrow> fault + bool" where
  "Contains64_loop bf [] data = Inr True"
| "Contains64_loop bf (fn # fns) data =
     (if size_bf64 bf = 0 then Inl (Panic ''runtime error: integer divide by zero'')
      else
        case Bitmap_IsSet (bitmap64 bf) (uint (fn data mod size_bf64 bf)) of
          Inl e \<Rightarrow> Inl e
        | Inr isset \<Rightarrow> if \<not> isset then Inr False else Contains64_loop bf fns data)"

definition Int64BloomFilter_Contains :: "Int64BloomFilter \<Rightarrow> 64 word \<Rightarrow> fault + bool" where
  "Int64BloomFilter_Contains bf data = Contains64_loop bf (hashFunc64 bf) data"

text \<open>
  \<open>AddMany\<close>. \<open>indexes := make([]int, len(data))\<close> has one slot per element; the
  inner loop over the hash functions stores every index into the same slot
  \<open>indexes[i]\<close>, so the slot ends with the index of the last hash function (and stays 0
  when there is none). The slice then goes to \<open>MSet\<close>.
\<close>

fun AddMany_slot ::
  "Int64BloomFilter \<Rightarrow> (64 word \<Rightarrow> 32 word) list \<Rightarrow> 64 word \<Rightarrow> int \<Rightarrow> fault + int" where
  "AddMany_slot bf [] d slot = Inr slot"
| "AddMany_slot bf (fn # fns) d slot =
     (if size_bf64 bf = 0 then Inl (Panic ''runtime error: integer divide by zero'')
      else AddMany_slot bf fns d (uint (fn d mod size_bf64 bf)))"

fun AddMany_indexes :: "Int64BloomFilter \<Rightarrow> 64 word list \<Rightarrow> fault + int list" where
  "AddMany_indexes bf [] = Inr []"
| "AddMany_indexes bf (d # ds) =
     (case AddMany_slot bf (hashFunc64 bf) d 0 of
        Inl e \<Rightarrow> Inl e
      | Inr slot \<Rightarrow>
          (case AddMany_indexes bf ds of
             Inl e \<Rightarrow> Inl e
           | Inr slots \<Rightarrow> Inr (slot # slots)))"

definition Int64BloomFilter_AddMany ::
  "Int64BloomFilter \<Rightarrow> 64 word list \<Rightarrow> fault + Int64BloomFilter" where
  "Int64BloomFilter_AddMany bf data =
     (case AddMany_indexes bf data of
        Inl e \<Rightarrow> Inl e
      | Inr indexes \<Rightarrow>
          (case Bitmap_MSet (bitmap64 bf) indexes of
             Inl e \<Rightarrow> Inl e
           | Inr b \<Rightarrow> Inr (bf\<lparr>bitmap64 := b\<rparr>)))"

subsection \<open>No false negatives\<close>

definition bf_wf :: "BloomFilter \<Rightarrow> bool" where
  "bf_wf bf = (Bitmap_wf (bitmap bf) \<and> size_bm (bitmap bf) = uint (size_bf bf) \<and> size_bf bf \<noteq> 0)"

text \<open>The bit index a hash function gives for an element.\<close>

definition bf_index :: "BloomFilter \<Rightarrow> (8 word list \<Rightarrow> 32 word) \<Rightarrow> 8 word list \<Rightarrow> int" where
  "bf_index bf fn data = uint (fn data mod size_bf bf)"

lemma bf_index_range:
  assumes "bf_wf bf"
  shows "0 \<le> bf_index bf fn data \<and> bf_index bf fn data < size_bm (bitmap bf)"
proof -
  from assms have nz: "size_bf bf \<noteq> 0" and sz: "size_bm (bitmap bf) = uint (size_bf bf)"
    by (simp_all add: bf_wf_def)
  from nz have "0 < size_bf bf" by (simp add: word_greater_zero_iff)
  then have "fn data mod size_bf bf < size_bf bf" by (rule word_mod_less_divisor)
  then show ?thesis by (simp add: bf_index_def sz word_less_def)
qed

lemma Add_loop_ok:
  assumes "bf_wf bf"
  shows "\<exists>bf'. Add_loop bf fns data = Inr bf' \<and> bf_wf bf' \<and>
           hashFunc bf' = hashFunc bf \<and> size_bf bf' = size_bf bf \<and>
           (\<forall>j. 0 \<le> j \<longrightarrow> bm_bit (bitmap bf') j =
                  (bm_bit (bitmap bf) j \<or> (\<exists>fn \<in> set fns. j = bf_index bf fn data)))"
  using assms
proof (induction fns arbitrary: bf)
  case Nil
  then show ?case by simp
next
  case (Cons fn fns)
  from Cons.prems have wf: "Bitmap_wf (bitmap bf)" and nz: "size_bf bf \<noteq> 0"
    and sz: "size_bm (bitmap bf) = uint (size_bf bf)"
    by (simp_all add: bf_wf_def)
  from bf_index_range [OF Cons.prems, of fn data]
  have r: "0 \<le> bf_index bf fn data" "bf_index bf fn data < size_bm (bitmap bf)" by simp_all
  from Bitmap_Set_wf [OF wf r] obtain b where
    s: "Bitmap_Set (bitmap bf) (bf_index bf fn data) = Inr b" and wfb: "Bitmap_wf b"
    and szb: "size_bm b = size_bm (bitmap bf)"
    and fr: "\<And>j. 0 \<le> j \<Longrightarrow> bm_bit b j = (j = bf_index bf fn data \<or> bm_bit (bitmap bf) j)"
    by blast
  let ?bf1 = "bf\<lparr>bitmap := b\<rparr>"
  have wf1: "bf_wf ?bf1" using wfb szb sz nz by (simp add: bf_wf_def)
  from Cons.IH [OF wf1] obtain bf' where
    a: "Add_loop ?bf1 fns data = Inr bf'" and wf': "bf_wf bf'"
    and hf: "hashFunc bf' = hashFunc bf" and sz': "size_bf bf' = size_bf bf"
    and fr': "\<And>j. 0 \<le> j \<Longrightarrow> bm_bit (bitmap bf') j =
                  (bm_bit b j \<or> (\<exists>fn \<in> set fns. j = bf_index ?bf1 fn data))"
    by auto
  have e: "Add_loop bf (fn # fns) data = Inr bf'"
    using nz s a by (simp add: bf_index_def)
  have "bm_bit (bitmap bf') j =
          (bm_bit (bitmap bf) j \<or> (\<exists>f \<in> set (fn # fns). j = bf_index bf f data))"
    if "0 \<le> j" for j
    using fr' [OF that] fr [OF that] by (auto simp add: bf_index_def)
  with e wf' hf sz' show ?case by blast
qed

lemma Contains_loop_ok:
  assumes "bf_wf bf"
  shows "Contains_loop bf fns data =
           Inr (\<forall>fn \<in> set fns. bm_bit (bitmap bf) (bf_index bf fn data))"
proof (induction fns)
  case Nil
  then show ?case by simp
next
  case (Cons fn fns)
  from assms have wf: "Bitmap_wf (bitmap bf)" and nz: "size_bf bf \<noteq> 0"
    by (simp_all add: bf_wf_def)
  from bf_index_range [OF assms, of fn data]
  have r: "0 \<le> bf_index bf fn data" "bf_index bf fn data < size_bm (bitmap bf)" by simp_all
  have "Bitmap_IsSet (bitmap bf) (uint (fn data mod size_bf bf))
          = Inr (bm_bit (bitmap bf) (bf_index bf fn data))"
    using Bitmap_IsSet_wf [OF wf r] by (simp add: bf_index_def)
  with Cons nz show ?case by simp
qed

lemma BloomFilter_Add_ok:
  assumes "bf_wf bf"
  shows "\<exists>bf'. BloomFilter_Add bf data = Inr bf' \<and> bf_wf bf' \<and>
           hashFunc bf' = hashFunc bf \<and> size_bf bf' = size_bf bf \<and>
           (\<forall>j. 0 \<le> j \<longrightarrow> bm_bit (bitmap bf') j =
                  (bm_bit (bitmap bf) j \<or> (\<exists>fn \<in> set (hashFunc bf). j = bf_index bf fn data)))"
  unfolding BloomFilter_Add_def by (rule Add_loop_ok [OF assms])

lemma BloomFilter_AddAll_ok:
  assumes "bf_wf bf"
  shows "\<exists>bf'. BloomFilter_AddAll bf ds = Inr bf' \<and> bf_wf bf' \<and>
           hashFunc bf' = hashFunc bf \<and> size_bf bf' = size_bf bf \<and>
           (\<forall>j. 0 \<le> j \<longrightarrow> bm_bit (bitmap bf) j \<longrightarrow> bm_bit (bitmap bf') j)"
  using assms
proof (induction ds arbitrary: bf)
  case Nil
  then show ?case by simp
next
  case (Cons d ds)
  from BloomFilter_Add_ok [OF Cons.prems, of d] obtain bf1 where
    a: "BloomFilter_Add bf d = Inr bf1" and wf1: "bf_wf bf1"
    and hf1: "hashFunc bf1 = hashFunc bf" and sz1: "size_bf bf1 = size_bf bf"
    and m1: "\<And>j. 0 \<le> j \<Longrightarrow> bm_bit (bitmap bf) j \<Longrightarrow> bm_bit (bitmap bf1) j"
    by blast
  from Cons.IH [OF wf1] obtain bf' where
    r: "BloomFilter_AddAll bf1 ds = Inr bf'" and wf': "bf_wf bf'"
    and hf': "hashFunc bf' = hashFunc bf1" and sz': "size_bf bf' = size_bf bf1"
    and m': "\<And>j. 0 \<le> j \<Longrightarrow> bm_bit (bitmap bf1) j \<Longrightarrow> bm_bit (bitmap bf') j"
    by blast
  have "BloomFilter_AddAll bf (d # ds) = Inr bf'" using a r by simp
  with wf' hf' hf1 sz' sz1 m1 m' show ?case by auto
qed

lemma New_mk_ok:
  assumes "m \<noteq> 0"
  shows "\<exists>bf. New_mk m k = Inr bf \<and> bf_wf bf"
proof -
  have m32: "uint m < 2 ^ 32" using uint_bounded [of m] by simp
  then have lt: "uint m < 2 ^ 63" by simp
  from m32 have le: "(uint m + 7) div 8 \<le> maxAlloc" by (simp add: maxAlloc_def)
  have ge: "0 \<le> uint m" by simp
  from NewBitmap_ok [OF ge le] obtain b where b: "NewBitmap (uint m) = Inr b" by blast
  from NewBitmap_wf [OF lt b] have "Bitmap_wf b" "size_bm b = uint m" by simp_all
  with b assms show ?thesis by (simp add: New_mk_def bf_wf_def Let_def)
qed

text \<open>With \<open>m = 0\<close> the first \<open>Add\<close> of a filter that has a hash function panics.\<close>

lemma BloomFilter_Add_zero_size:
  "size_bf bf = 0 \<Longrightarrow> hashFunc bf \<noteq> [] \<Longrightarrow>
     BloomFilter_Add bf data = Inl (Panic ''runtime error: integer divide by zero'')"
  by (cases "hashFunc bf") (simp_all add: BloomFilter_Add_def)

lemma no_false_negative_positive_size:
  assumes "m \<noteq> 0"
  shows "\<exists>bf0. New_mk m k = Inr bf0 \<and>
           (\<forall>before d after. \<exists>bf.
              BloomFilter_AddAll bf0 (before @ d # after) = Inr bf \<and>
              BloomFilter_Contains bf d = Inr True)"
proof -
  from New_mk_ok [OF assms] obtain bf0 where n: "New_mk m k = Inr bf0" and wf0: "bf_wf bf0"
    by blast
  have "\<exists>bf. BloomFilter_AddAll bf0 (before @ d # after) = Inr bf \<and>
              BloomFilter_Contains bf d = Inr True" for before d after
  proof -
    from BloomFilter_AddAll_ok [OF wf0, of before] obtain bf1 where
      r1: "BloomFilter_AddAll bf0 before = Inr bf1" and wf1: "bf_wf bf1" by blast
    from BloomFilter_Add_ok [OF wf1, of d] obtain bf2 where
      a: "BloomFilter_Add bf1 d = Inr bf2" and wf2: "bf_wf bf2"
      and hf2: "hashFunc bf2 = hashFunc bf1" and sz2: "size_bf bf2 = size_bf bf1"
      and s2: "\<And>fn. fn \<in> set (hashFunc bf1) \<Longrightarrow> bm_bit (bitmap bf2) (bf_index bf1 fn d)"
      using bf_index_range [OF wf1] by blast
    from BloomFilter_AddAll_ok [OF wf2, of after] obtain bf3 where
      r3: "BloomFilter_AddAll bf2 after = Inr bf3" and wf3: "bf_wf bf3"
      and hf3: "hashFunc bf3 = hashFunc bf2" and sz3: "size_bf bf3 = size_bf bf2"
      and m3: "\<And>j. 0 \<le> j \<Longrightarrow> bm_bit (bitmap bf2) j \<Longrightarrow> bm_bit (bitmap bf3) j"
      by blast
    have app: "BloomFilter_AddAll x (xs @ ys) =
        (case BloomFilter_AddAll x xs of Inl e \<Rightarrow> Inl e | Inr y \<Rightarrow> BloomFilter_AddAll y ys)"
      for x xs ys
      by (induction xs arbitrary: x) (simp_all split: sum.splits)
    have run: "BloomFilter_AddAll bf0 (before @ d # after) = Inr bf3"
      using r1 a r3 by (simp add: app)
    have ix: "bf_index bf3 fn d = bf_index bf1 fn d" for fn
      by (simp add: bf_index_def sz3 sz2)
    have "bm_bit (bitmap bf3) (bf_index bf3 fn d)" if "fn \<in> set (hashFunc bf3)" for fn
    proof -
      from that have "fn \<in> set (hashFunc bf1)" by (simp add: hf3 hf2)
      from s2 [OF this] bf_index_range [OF wf1, of fn d] m3 show ?thesis by (simp add: ix)
    qed
    then have "BloomFilter_Contains bf3 d = Inr True"
      by (simp add: BloomFilter_Contains_def Contains_loop_ok [OF wf3])
    with run show ?thesis by blast
  qed
  with n show ?thesis by blast
qed

text \<open>A filter without hash functions: \<open>Add\<close> does nothing and \<open>Contains\<close> is true.\<close>

lemma no_hash_functions:
  assumes "hashFunc bf = []"
  shows "BloomFilter_AddAll bf ds = Inr bf \<and> BloomFilter_Contains bf d = Inr True"
proof -
  have "BloomFilter_AddAll bf ds = Inr bf"
    using assms by (induction ds) (simp_all add: BloomFilter_Add_def)
  then show ?thesis using assms by (simp add: BloomFilter_Contains_def)
qed

lemma New_mk_zero:
  "New_mk 0 0 = Inr \<lparr>bitmap = \<lparr>mutex = False, bits = [], size_bm = 0\<rparr>, hashFunc = [], size_bf = 0\<rparr>"
  by (simp add: New_mk_def NewBitmap_def maxAlloc_def int64_wrap_def quo_def
      createHashFunctions_def)

text \<open>
  C2. \<open>estimateParameters\<close> gives the bit count \<open>m\<close> and the hash count
  \<open>k = ceil(ln 2 * m / n)\<close>, so that \<open>k = 0\<close> when \<open>m = 0\<close>. For every such pair: the
  filter is constructed, every sequence of \<open>Add\<close> calls returns, and after it
  \<open>Contains(d)\<close> is true for every \<open>d\<close> that was added at some point of the sequence.
\<close>

theorem BloomFilter_no_false_negative:
  assumes "m \<noteq> 0 \<or> k = 0"
  shows "\<exists>bf0. New_mk m k = Inr bf0 \<and>
           (\<forall>before d after. \<exists>bf.
              BloomFilter_AddAll bf0 (before @ d # after) = Inr bf \<and>
              BloomFilter_Contains bf d = Inr True)"
proof (cases "m = 0")
  case False
  then show ?thesis by (rule no_false_negative_positive_size)
next
  case True
  with assms have k: "k = 0" by simp
  let ?bf0 = "\<lparr>bitmap = \<lparr>mutex = False, bits = [], size_bm = 0\<rparr>, hashFunc = [], size_bf = 0\<rparr>"
  have "hashFunc ?bf0 = []" by simp
  from no_hash_functions [OF this] New_mk_zero True k show ?thesis by blast
qed

theorem BloomFilter_no_false_negative_witness:
  "(96 :: 32 word) \<noteq> 0 \<and>
   (\<exists>bf0. New_mk 96 7 = Inr bf0 \<and>
      (\<exists>bf. BloomFilter_AddAll bf0 [[1], [97], [2, 3]] = Inr bf \<and>
            BloomFilter_Contains bf [97] = Inr True)) \<and>
   (\<exists>bf0. New_mk 0 0 = Inr bf0 \<and>
      (\<exists>bf. BloomFilter_AddAll bf0 [[1], [97], [2, 3]] = Inr bf \<and>
            BloomFilter_Contains bf [97] = Inr True))"
proof -
  have h: "(96 :: 32 word) \<noteq> 0" by simp
  then have h1: "(96 :: 32 word) \<noteq> 0 \<or> (7 :: 32 word) = 0" by simp
  have h2: "(0 :: 32 word) \<noteq> 0 \<or> (0 :: 32 word) = 0" by simp
  from BloomFilter_no_false_negative [OF h1] obtain bf0 where
    n: "New_mk 96 7 = Inr bf0" and
    a: "\<forall>before d after. \<exists>bf.
          BloomFilter_AddAll bf0 (before @ d # after) = Inr bf \<and>
          BloomFilter_Contains bf d = Inr True"
    by blast
  from a [rule_format, of "[[1]]" "[97]" "[[2, 3]]"]
  have r: "\<exists>bf. BloomFilter_AddAll bf0 [[1], [97], [2, 3]] = Inr bf \<and>
             BloomFilter_Contains bf [97] = Inr True"
    by simp
  from BloomFilter_no_false_negative [OF h2] obtain bz where
    nz: "New_mk 0 0 = Inr bz" and
    az: "\<forall>before d after. \<exists>bf.
          BloomFilter_AddAll bz (before @ d # after) = Inr bf \<and>
          BloomFilter_Contains bf d = Inr True"
    by blast
  from az [rule_format, of "[[1]]" "[97]" "[[2, 3]]"]
  have rz: "\<exists>bf. BloomFilter_AddAll bz [[1], [97], [2, 3]] = Inr bf \<and>
             BloomFilter_Contains bf [97] = Inr True"
    by simp
  from h n r nz rz show ?thesis by blast
qed

subsection \<open>Batch insertion into the int64-keyed filter\<close>

text \<open>
  \<open>Set\<close> on a bitmap whose mutex is held never returns: it panics on a bad index and
  blocks on the mutex otherwise. So \<open>MSet\<close>, which holds the mutex while it calls
  \<open>Set\<close>, returns only for an empty slice.
\<close>

lemma Bitmap_Set_locked:
  "mutex b \<Longrightarrow> Bitmap_Set b i =
     (if i < 0 \<or> i \<ge> size_bm b then Inl (Panic ''bitmap index out of range'') else Inl Deadlock)"
  by (simp add: Bitmap_Set_def validateIndex_def Lock_def)

lemma Bitmap_MSet_never_returns:
  "Bitmap_MSet b (i # rest) \<noteq> Inr b'"
  by (simp add: Bitmap_MSet_def Lock_def Bitmap_Set_locked split: sum.splits)

lemma Bitmap_MSet_deadlock:
  "\<not> mutex b \<Longrightarrow> 0 \<le> i \<Longrightarrow> i < size_bm b \<Longrightarrow> Bitmap_MSet b (i # rest) = Inl Deadlock"
  by (simp add: Bitmap_MSet_def Lock_def Bitmap_Set_locked)

lemma AddMany_indexes_length:
  "AddMany_indexes bf data = Inr indexes \<Longrightarrow> length indexes = length data"
  by (induction data arbitrary: indexes) (auto split: sum.splits)

lemma Int64BloomFilter_AddMany_never_returns:
  "data \<noteq> [] \<Longrightarrow> Int64BloomFilter_AddMany bf data \<noteq> Inr bf'"
proof -
  assume ne: "data \<noteq> []"
  show ?thesis
  proof (cases "AddMany_indexes bf data")
    case (Inl e)
    then show ?thesis by (simp add: Int64BloomFilter_AddMany_def)
  next
    case (Inr indexes)
    from AddMany_indexes_length [OF Inr] ne obtain i rest where "indexes = i # rest"
      by (cases indexes) auto
    with Inr Bitmap_MSet_never_returns [of "bitmap64 bf" i rest] show ?thesis
      by (auto simp add: Int64BloomFilter_AddMany_def split: sum.splits)
  qed
qed

text \<open>The slot of an element holds one index: that of the last hash function.\<close>

lemma AddMany_slot_last:
  "size_bf64 bf \<noteq> 0 \<Longrightarrow> fns \<noteq> [] \<Longrightarrow>
     AddMany_slot bf fns d slot = Inr (uint (last fns d mod size_bf64 bf))"
  by (induction fns arbitrary: slot) auto

text \<open>
  The filter \<open>NewInt64Bloom(10, 0.01)\<close> of the package's tests: \<open>estimateParameters\<close>
  gives \<open>m = 96\<close> bits and \<open>k = 7\<close> hash functions.
\<close>

definition bf96 :: Int64BloomFilter where
  "bf96 = \<lparr>bitmap64 = \<lparr>mutex = False, bits = replicate 12 0, size_bm = 96\<rparr>,
           hashFunc64 = createInt64HashFunctions 7, size_bf64 = 96\<rparr>"

lemma NewInt64Bloom_mk_96: "NewInt64Bloom_mk 96 7 = Inr bf96"
  by (simp add: NewInt64Bloom_mk_def NewBitmap_def maxAlloc_def int64_wrap_def quo_def
      bf96_def)

lemma AddMany_96_blocks: "Int64BloomFilter_AddMany bf96 [0x300000005] = Inl Deadlock"
  by code_simp

lemma AddMany_96_indexes: "AddMany_indexes bf96 [0x300000005] = Inr [9]"
  by code_simp

lemma Add_96_bits:
  "map_sum id (bits \<circ> bitmap64) (Int64BloomFilter_AddAll bf96 [0x300000005])
     = Inr [104, 6, 0, 0, 0, 0, 0, 0, 0, 0, 0, 0]"
  by code_simp

lemma Add_96_contains:
  "(case Int64BloomFilter_AddAll bf96 [0x300000005] of
      Inl e \<Rightarrow> Inl e
    | Inr bf \<Rightarrow> Int64BloomFilter_Contains bf 0x300000005) = Inr True"
  by code_simp

text \<open>
  C1, at a concrete input. On the filter with 96 bits and 7 hash functions,
  \<open>AddMany\<close> of the one-element list \<open>[0x300000005]\<close> does not return: \<open>MSet\<close> blocks
  on its own mutex. The index slice it hands to \<open>MSet\<close> is \<open>[9]\<close>, one index instead
  of the element's seven. \<open>Add\<close> of the same element returns, sets the bits 3, 5, 6, 9
  and 10 (the bytes \<open>104, 6\<close>), and \<open>Contains\<close> is true afterwards.
\<close>

theorem AddMany_differs_from_Add:
  "NewInt64Bloom_mk 96 7 = Inr bf96 \<and>
   Int64BloomFilter_AddMany bf96 [0x300000005] = Inl Deadlock \<and>
   AddMany_indexes bf96 [0x300000005] = Inr [9] \<and>
   (\<exists>bf. Int64BloomFilter_AddAll bf96 [0x300000005] = Inr bf \<and>
         bits (bitmap64 bf) = [104, 6, 0, 0, 0, 0, 0, 0, 0, 0, 0, 0] \<and>
         Int64BloomFilter_Contains bf 0x300000005 = Inr True)"
proof -
  obtain bf where a: "Int64BloomFilter_AddAll bf96 [0x300000005] = Inr bf"
    using Add_96_bits by (cases "Int64BloomFilter_AddAll bf96 [0x300000005]") auto
  from a Add_96_bits have b: "bits (bitmap64 bf) = [104, 6, 0, 0, 0, 0, 0, 0, 0, 0, 0, 0]"
    by simp
  from a Add_96_contains have c: "Int64BloomFilter_Contains bf 0x300000005 = Inr True"
    by simp
  from NewInt64Bloom_mk_96 AddMany_96_blocks AddMany_96_indexes a b c show ?thesis
    by blast
qed

section \<open>Package strmap\<close>

text \<open>
  \<open>type ConcurrentMap []*mapShard\<close>: a slice of shards, each a Go map from strings to
  values. A shard's items are an association list with distinct keys, so that
  \<open>len(shard.items)\<close> is its length. The operations modelled here are the single-key
  ones and \<open>Count\<close>; each takes and releases the shard's lock around its body, and calls
  are sequential. \<open>getShard\<close> returns a pointer to a shard: the model returns the
  shard's position in the slice.
\<close>

type_synonym 'v mapShard = "(string \<times> 'v) list"

type_synonym 'v ConcurrentMap = "'v mapShard list"

record Options =
  ShardCount :: int

definition defaultShardCount :: nat where
  "defaultShardCount = 32"

definition NewWithOptions :: "Options \<Rightarrow> 'v ConcurrentMap" where
  "NewWithOptions opts =
     (let shardCount = (if ShardCount opts > 0 then ShardCount opts else int defaultShardCount)
      in replicate (nat shardCount) [])"

definition New :: "'v ConcurrentMap" where
  "New = replicate defaultShardCount []"

text \<open>\<open>fnv32\<close>: 32-bit FNV-1a over the bytes of the key.\<close>

definition fnv32 :: "string \<Rightarrow> 32 word" where
  "fnv32 key = foldl (\<lambda>hash c. (hash XOR of_char c) * 16777619) 2166136261 key"

text \<open>\<open>return m[uint(fnv32(key))%uint(defaultShardCount)]\<close>, with the bounds check.\<close>

definition getShard :: "'v ConcurrentMap \<Rightarrow> string \<Rightarrow> fault + nat" where
  "getShard m key =
     (let i = unat (fnv32 key) mod defaultShardCount in
      if i < length m then Inr i else Inl (Panic ''runtime error: index out of range''))"

definition ConcurrentMap_Set :: "'v ConcurrentMap \<Rightarrow> string \<Rightarrow> 'v \<Rightarrow> fault + 'v ConcurrentMap" where
  "ConcurrentMap_Set m key v =
     (case getShard m key of
        Inl e \<Rightarrow> Inl e
      | Inr i \<Rightarrow> Inr (m[i := AList.update key v (m ! i)]))"

definition ConcurrentMap_Get :: "'v ConcurrentMap \<Rightarrow> string \<Rightarrow> fault + 'v option" where
  "ConcurrentMap_Get m key =
     (case getShard m key of
        Inl e \<Rightarrow> Inl e
      | Inr i \<Rightarrow> Inr (map_of (m ! i) key))"

definition ConcurrentMap_Has :: "'v ConcurrentMap \<Rightarrow> string \<Rightarrow> fault + bool" where
  "ConcurrentMap_Has m key =
     (case getShard m key of
        Inl e \<Rightarrow> Inl e
      | Inr i \<Rightarrow> Inr (map_of (m ! i) key \<noteq> None))"

definition ConcurrentMap_Remove :: "'v ConcurrentMap \<Rightarrow> string \<Rightarrow> fault + 'v ConcurrentMap" where
  "ConcurrentMap_Remove m key =
     (case getShard m key of
        Inl e \<Rightarrow> Inl e
      | Inr i \<Rightarrow> Inr (m[i := AList.delete key (m ! i)]))"

definition ConcurrentMap_GetOrSet ::
  "'v ConcurrentMap \<Rightarrow> string \<Rightarrow> 'v \<Rightarrow> fault + ('v \<times> 'v ConcurrentMap)" where
  "ConcurrentMap_GetOrSet m key v =
     (case getShard m key of
        Inl e \<Rightarrow> Inl e
      | Inr i \<Rightarrow>
          (case map_of (m ! i) key of
             Some val \<Rightarrow> Inr (val, m)
           | None \<Rightarrow> Inr (v, m[i := AList.update key v (m ! i)])))"

definition ConcurrentMap_Upsert ::
  "'v ConcurrentMap \<Rightarrow> string \<Rightarrow> 'v \<Rightarrow> (bool \<Rightarrow> 'v option \<Rightarrow> 'v \<Rightarrow> 'v)
     \<Rightarrow> fault + ('v \<times> 'v ConcurrentMap)" where
  "ConcurrentMap_Upsert m key v cb =
     (case getShard m key of
        Inl e \<Rightarrow> Inl e
      | Inr i \<Rightarrow>
          (let res = cb (map_of (m ! i) key \<noteq> None) (map_of (m ! i) key) v
           in Inr (res, m[i := AList.update key res (m ! i)])))"

definition ConcurrentMap_SetIfAbsent ::
  "'v ConcurrentMap \<Rightarrow> string \<Rightarrow> 'v \<Rightarrow> fault + (bool \<times> 'v ConcurrentMap)" where
  "ConcurrentMap_SetIfAbsent m key v =
     (case getShard m key of
        Inl e \<Rightarrow> Inl e
      | Inr i \<Rightarrow>
          (let ok = (map_of (m ! i) key \<noteq> None) in
           if \<not> ok then Inr (True, m[i := AList.update key v (m ! i)])
           else Inr (False, m)))"

definition ConcurrentMap_RemoveCb ::
  "'v ConcurrentMap \<Rightarrow> string \<Rightarrow> (string \<Rightarrow> 'v option \<Rightarrow> bool \<Rightarrow> bool)
     \<Rightarrow> fault + (bool \<times> 'v ConcurrentMap)" where
  "ConcurrentMap_RemoveCb m key cb =
     (case getShard m key of
        Inl e \<Rightarrow> Inl e
      | Inr i \<Rightarrow>
          (let ok = (map_of (m ! i) key \<noteq> None);
               remove = cb key (map_of (m ! i) key) ok
           in if remove \<and> ok then Inr (remove, m[i := AList.delete key (m ! i)])
              else Inr (remove, m)))"

definition ConcurrentMap_Pop ::
  "'v ConcurrentMap \<Rightarrow> string \<Rightarrow> fault + ('v option \<times> 'v ConcurrentMap)" where
  "ConcurrentMap_Pop m key =
     (case getShard m key of
        Inl e \<Rightarrow> Inl e
      | Inr i \<Rightarrow> Inr (map_of (m ! i) key, m[i := AList.delete key (m ! i)]))"

text \<open>
  \<open>Count\<close>: \<open>for i := 0; i < defaultShardCount; i++ { shard := m[i]; ... }\<close>.
\<close>

fun Count_loop :: "'v ConcurrentMap \<Rightarrow> nat list \<Rightarrow> int \<Rightarrow> fault + int" where
  "Count_loop m [] count = Inr count"
| "Count_loop m (i # rest) count =
     (if i < length m then Count_loop m rest (count + int (length (m ! i)))
      else Inl (Panic ''runtime error: index out of range''))"

definition ConcurrentMap_Count :: "'v ConcurrentMap \<Rightarrow> fault + int" where
  "ConcurrentMap_Count m = Count_loop m [0..<defaultShardCount] 0"

subsection \<open>Shard selection ignores the shard count\<close>

lemma getShard_lt: "getShard m key = Inr i \<Longrightarrow> i < defaultShardCount \<and> i < length m"
  by (auto simp add: getShard_def Let_def defaultShardCount_def split: if_splits)

lemma getShard_panic:
  "length m \<le> unat (fnv32 key) mod defaultShardCount \<Longrightarrow>
     getShard m key = Inl (Panic ''runtime error: index out of range'')"
  by (simp add: getShard_def Let_def)

lemma getShard_ok:
  "defaultShardCount \<le> length m \<Longrightarrow>
     getShard m key = Inr (unat (fnv32 key) mod defaultShardCount)"
proof -
  assume a: "defaultShardCount \<le> length m"
  have "unat (fnv32 key) mod defaultShardCount < defaultShardCount"
    by (simp add: defaultShardCount_def)
  with a show ?thesis by (simp add: getShard_def Let_def)
qed

lemma fnv32_at_sign: "unat (fnv32 ''@'') mod defaultShardCount = 31"
  by (simp add: fnv32_def defaultShardCount_def)

lemma Count_loop_sum:
  "\<forall>i \<in> set is. i < length m \<Longrightarrow>
     Count_loop m is c = Inr (c + sum_list (map (\<lambda>i. int (length (m ! i))) is))"
  by (induction "is" arbitrary: c) simp_all

lemma Count_first_32:
  assumes "defaultShardCount \<le> length m"
  shows "ConcurrentMap_Count m = Inr (sum_list (map (\<lambda>s. int (length s)) (take defaultShardCount m)))"
proof -
  have "\<forall>i \<in> set [0..<defaultShardCount]. i < length m" using assms by simp
  from Count_loop_sum [OF this, of 0]
  have "ConcurrentMap_Count m =
          Inr (sum_list (map (\<lambda>i. int (length (m ! i))) [0..<defaultShardCount]))"
    by (simp add: ConcurrentMap_Count_def)
  moreover have "map (\<lambda>i. int (length (m ! i))) [0..<defaultShardCount]
       = map (\<lambda>s. int (length s)) (take defaultShardCount m)"
    using assms by (intro nth_equalityI) simp_all
  ultimately show ?thesis by simp
qed

lemma length_NewWithOptions:
  "length (NewWithOptions opts :: 'v ConcurrentMap) =
     (if ShardCount opts > 0 then nat (ShardCount opts) else defaultShardCount)"
  by (simp add: NewWithOptions_def Let_def)

text \<open>
  C4. A map made with \<open>0 < ShardCount < 32\<close> has that many shards, in every state.
  There is a key whose hash modulo 32 is at least \<open>ShardCount\<close>, and on such a key every
  single-key operation panics with an index out of range. A map made with
  \<open>ShardCount > 32\<close> selects a shard below 32 for every key, and \<open>Count\<close> is the sum of
  the sizes of its first 32 shards.
\<close>

theorem strmap_shard_index_modulo_32:
  fixes sc :: int
  shows
  "(0 < sc \<and> sc < 32 \<longrightarrow>
      (\<exists>key. sc \<le> int (unat (fnv32 key) mod defaultShardCount)) \<and>
      (\<forall>(m :: 'v ConcurrentMap) key v ucb rcb.
         length m = length (NewWithOptions \<lparr>ShardCount = sc\<rparr> :: 'v ConcurrentMap) \<and>
         sc \<le> int (unat (fnv32 key) mod defaultShardCount) \<longrightarrow>
           ConcurrentMap_Set m key v = Inl (Panic ''runtime error: index out of range'') \<and>
           ConcurrentMap_Get m key = Inl (Panic ''runtime error: index out of range'') \<and>
           ConcurrentMap_Has m key = Inl (Panic ''runtime error: index out of range'') \<and>
           ConcurrentMap_Remove m key = Inl (Panic ''runtime error: index out of range'') \<and>
           ConcurrentMap_GetOrSet m key v = Inl (Panic ''runtime error: index out of range'') \<and>
           ConcurrentMap_Upsert m key v ucb = Inl (Panic ''runtime error: index out of range'') \<and>
           ConcurrentMap_SetIfAbsent m key v = Inl (Panic ''runtime error: index out of range'') \<and>
           ConcurrentMap_RemoveCb m key rcb = Inl (Panic ''runtime error: index out of range'') \<and>
           ConcurrentMap_Pop m key = Inl (Panic ''runtime error: index out of range''))) \<and>
   (32 < sc \<longrightarrow>
      (\<forall>(m :: 'v ConcurrentMap) key.
         length m = length (NewWithOptions \<lparr>ShardCount = sc\<rparr> :: 'v ConcurrentMap) \<longrightarrow>
           (\<exists>i. getShard m key = Inr i \<and> i < 32) \<and>
           ConcurrentMap_Count m =
             Inr (sum_list (map (\<lambda>s. int (length s)) (take 32 m)))))"
proof (intro conjI impI allI)
  assume "0 < sc \<and> sc < 32"
  then have "sc \<le> int (unat (fnv32 ''@'') mod defaultShardCount)"
    by (simp add: fnv32_at_sign)
  then show "\<exists>key. sc \<le> int (unat (fnv32 key) mod defaultShardCount)" ..
next
  fix m :: "'v ConcurrentMap" and key v ucb rcb
  assume sc: "0 < sc \<and> sc < 32"
    and "length m = length (NewWithOptions \<lparr>ShardCount = sc\<rparr> :: 'v ConcurrentMap) \<and>
         sc \<le> int (unat (fnv32 key) mod defaultShardCount)"
  then have "length m \<le> unat (fnv32 key) mod defaultShardCount"
    by (simp add: length_NewWithOptions nat_le_iff)
  then have g: "getShard m key = Inl (Panic ''runtime error: index out of range'')"
    by (rule getShard_panic)
  show "ConcurrentMap_Set m key v = Inl (Panic ''runtime error: index out of range'')"
    by (simp add: ConcurrentMap_Set_def g)
  show "ConcurrentMap_Get m key = Inl (Panic ''runtime error: index out of range'')"
    by (simp add: ConcurrentMap_Get_def g)
  show "ConcurrentMap_Has m key = Inl (Panic ''runtime error: index out of range'')"
    by (simp add: ConcurrentMap_Has_def g)
  show "ConcurrentMap_Remove m key = Inl (Panic ''runtime error: index out of range'')"
    by (simp add: ConcurrentMap_Remove_def g)
  show "ConcurrentMap_GetOrSet m key v = Inl (Panic ''runtime error: index out of range'')"
    by (simp add: ConcurrentMap_GetOrSet_def g)
  show "ConcurrentMap_Upsert m key v ucb = Inl (Panic ''runtime error: index out of range'')"
    by (simp add: ConcurrentMap_Upsert_def g)
  show "ConcurrentMap_SetIfAbsent m key v = Inl (Panic ''runtime error: index out of range'')"
    by (simp add: ConcurrentMap_SetIfAbsent_def g)
  show "ConcurrentMap_RemoveCb m key rcb = Inl (Panic ''runtime error: index out of range'')"
    by (simp add: ConcurrentMap_RemoveCb_def g)
  show "ConcurrentMap_Pop m key = Inl (Panic ''runtime error: index out of range'')"
    by (simp add: ConcurrentMap_Pop_def g)
next
  fix m :: "'v ConcurrentMap" and key
  assume "32 < sc"
    and "length m = length (NewWithOptions \<lparr>ShardCount = sc\<rparr> :: 'v ConcurrentMap)"
  then have len: "defaultShardCount \<le> length m"
    by (simp add: length_NewWithOptions defaultShardCount_def)
  from getShard_ok [OF len, of key] getShard_lt [of m key]
  show "\<exists>i. getShard m key = Inr i \<and> i < 32"
    by (simp add: defaultShardCount_def)
  from Count_first_32 [OF len]
  show "ConcurrentMap_Count m = Inr (sum_list (map (\<lambda>s. int (length s)) (take 32 m)))"
    by (simp add: defaultShardCount_def)
qed

theorem strmap_shard_index_modulo_32_witness:
  "(0 :: int) < 5 \<and> (5 :: int) < 32 \<and>
   5 \<le> int (unat (fnv32 ''@'') mod defaultShardCount) \<and>
   ConcurrentMap_Set (NewWithOptions \<lparr>ShardCount = 5\<rparr>) ''@'' (1 :: nat)
     = Inl (Panic ''runtime error: index out of range'') \<and>
   ConcurrentMap_Get (NewWithOptions \<lparr>ShardCount = 5\<rparr> :: nat ConcurrentMap) ''@''
     = Inl (Panic ''runtime error: index out of range'') \<and>
   (32 :: int) < 40 \<and>
   (\<exists>i. getShard (NewWithOptions \<lparr>ShardCount = 40\<rparr> :: nat ConcurrentMap) ''@'' = Inr i \<and> i < 32) \<and>
   ConcurrentMap_Count (NewWithOptions \<lparr>ShardCount = 40\<rparr> :: nat ConcurrentMap)
     = Inr (sum_list (map (\<lambda>s. int (length s))
             (take 32 (NewWithOptions \<lparr>ShardCount = 40\<rparr> :: nat ConcurrentMap))))"
proof -
  let ?m5 = "NewWithOptions \<lparr>ShardCount = 5\<rparr> :: nat ConcurrentMap"
  let ?m40 = "NewWithOptions \<lparr>ShardCount = 40\<rparr> :: nat ConcurrentMap"
  have k: "(5 :: int) \<le> int (unat (fnv32 ''@'') mod defaultShardCount)"
    by (simp add: fnv32_at_sign)
  have h5: "(0 :: int) < 5 \<and> (5 :: int) < 32" by simp
  have h40: "(32 :: int) < 40" by simp
  note thm5 = strmap_shard_index_modulo_32 [where ?'v = nat, of 5, THEN conjunct1, rule_format, OF h5,
      THEN conjunct2, rule_format, of ?m5 "''@''" 1 "\<lambda>_ _ v. v" "\<lambda>_ _ _. True"]
  note thm40 = strmap_shard_index_modulo_32 [where ?'v = nat, of 40, THEN conjunct2, rule_format,
      OF h40, of ?m40 "''@''"]
  from thm5 k have a: "ConcurrentMap_Set ?m5 ''@'' 1 = Inl (Panic ''runtime error: index out of range'')"
    and b: "ConcurrentMap_Get ?m5 ''@'' = Inl (Panic ''runtime error: index out of range'')"
    by simp_all
  from thm40 have c: "\<exists>i. getShard ?m40 ''@'' = Inr i \<and> i < 32"
    and d: "ConcurrentMap_Count ?m40 = Inr (sum_list (map (\<lambda>s. int (length s)) (take 32 ?m40)))"
    by simp_all
  from h5 h40 k a b c d show ?thesis by blast
qed

section \<open>Package aes\<close>

text \<open>
  A Go function with an \<open>error\<close> result either returns a value, returns an error, or
  panics: \<open>Inr (Value v)\<close>, \<open>Inr (Error msg)\<close> and \<open>Inl (Panic msg)\<close>.
\<close>

datatype 'a returned = Value 'a | Error string

text \<open>
  \<open>cipher.Block\<close> is an interface of the standard library: a block size and two
  functions on blocks. \<open>aes.NewCipher\<close> and the block cipher itself are not part of
  the package: a cipher is a parameter, and \<open>Block_ok\<close> says what the package relies on
  (16-byte blocks, decryption inverts encryption).
\<close>

record Block =
  BlockSize :: nat
  Encrypt_block :: "8 word list \<Rightarrow> 8 word list"
  Decrypt_block :: "8 word list \<Rightarrow> 8 word list"

definition Block_ok :: "Block \<Rightarrow> bool" where
  "Block_ok blk =
     (BlockSize blk = 16 \<and>
      (\<forall>x. length x = 16 \<longrightarrow>
         length (Encrypt_block blk x) = 16 \<and> length (Decrypt_block blk x) = 16 \<and>
         Decrypt_block blk (Encrypt_block blk x) = x))"

text \<open>
  The key is a slice: its bytes, and the bytes of its backing array beyond its length
  (the spare capacity), which \<open>key[:n]\<close> can reach.
\<close>

record key_slice =
  key_bytes :: "8 word list"
  key_spare :: "8 word list"

definition slice_to :: "key_slice \<Rightarrow> nat \<Rightarrow> fault + 8 word list" where
  "slice_to key n =
     (if n \<le> length (key_bytes key) + length (key_spare key)
      then Inr (take n (key_bytes key @ key_spare key))
      else Inl (Panic ''runtime error: slice bounds out of range''))"

text \<open>
  \<open>NewBlock\<close> wraps \<open>aes.NewCipher\<close>, which accepts keys of 16, 24 and 32 bytes; \<open>aes\<close>
  is the cipher family.
\<close>

definition NewBlock :: "(8 word list \<Rightarrow> Block) \<Rightarrow> key_slice \<Rightarrow> Block returned" where
  "NewBlock aes key =
     (if length (key_bytes key) \<in> {16, 24, 32} then Value (aes (key_bytes key))
      else Error ''[aes.NewBlock] aes.NewCipher failed'')"

text \<open>
  CBC mode of \<open>crypto/cipher\<close>. \<open>CryptBlocks\<close> panics when the input is not a whole
  number of blocks; the output buffer has the input's length in both callers.
\<close>

definition xor_bytes :: "8 word list \<Rightarrow> 8 word list \<Rightarrow> 8 word list" where
  "xor_bytes a b = map2 (XOR) a b"

function cbc_encrypt :: "Block \<Rightarrow> 8 word list \<Rightarrow> 8 word list \<Rightarrow> 8 word list" where
  "cbc_encrypt blk iv src =
     (if src = [] \<or> BlockSize blk = 0 then []
      else
        let c = Encrypt_block blk (xor_bytes (take (BlockSize blk) src) iv)
        in c @ cbc_encrypt blk c (drop (BlockSize blk) src))"
  by pat_completeness auto
termination
  by (relation "measure (\<lambda>(blk, iv, src). length src)") auto

function cbc_decrypt :: "Block \<Rightarrow> 8 word list \<Rightarrow> 8 word list \<Rightarrow> 8 word list" where
  "cbc_decrypt blk iv src =
     (if src = [] \<or> BlockSize blk = 0 then []
      else
        let c = take (BlockSize blk) src
        in xor_bytes (Decrypt_block blk c) iv @ cbc_decrypt blk c (drop (BlockSize blk) src))"
  by pat_completeness auto
termination
  by (relation "measure (\<lambda>(blk, iv, src). length src)") auto

definition CBCEncrypter_CryptBlocks ::
  "Block \<Rightarrow> 8 word list \<Rightarrow> 8 word list \<Rightarrow> fault + 8 word list" where
  "CBCEncrypter_CryptBlocks blk iv src =
     (if BlockSize blk = 0 then Inl (Panic ''runtime error: integer divide by zero'')
      else if length src mod BlockSize blk \<noteq> 0
      then Inl (Panic ''crypto/cipher: input not full blocks'')
      else Inr (cbc_encrypt blk iv src))"

definition CBCDecrypter_CryptBlocks ::
  "Block \<Rightarrow> 8 word list \<Rightarrow> 8 word list \<Rightarrow> fault + 8 word list" where
  "CBCDecrypter_CryptBlocks blk iv src =
     (if BlockSize blk = 0 then Inl (Panic ''runtime error: integer divide by zero'')
      else if length src mod BlockSize blk \<noteq> 0
      then Inl (Panic ''crypto/cipher: input not full blocks'')
      else Inr (cbc_decrypt blk iv src))"

text \<open>
  \<open>pkcs7Padding\<close>: \<open>padding := blockSize - len(ciphertext)%blockSize\<close>, then \<open>padding\<close>
  bytes of value \<open>byte(padding)\<close> are appended.
\<close>

definition pkcs7Padding :: "8 word list \<Rightarrow> nat \<Rightarrow> fault + 8 word list" where
  "pkcs7Padding ciphertext blockSize =
     (if blockSize = 0 then Inl (Panic ''runtime error: integer divide by zero'')
      else
        let padding = blockSize - length ciphertext mod blockSize
        in Inr (ciphertext @ replicate padding (of_nat padding)))"

text \<open>
  \<open>pkcs7UnPadding\<close>: \<open>origData[length-1]\<close> is read before any check, so an empty
  buffer panics.
\<close>

definition pkcs7UnPadding :: "8 word list \<Rightarrow> fault + 8 word list returned" where
  "pkcs7UnPadding origData =
     (if origData = [] then Inl (Panic ''runtime error: index out of range [-1]'')
      else
        let unPadding = unat (last origData) in
        if unPadding \<le> 0 \<or> unPadding > length origData
        then Inr (Error ''[aes.pkcs7UnPadding] length error'')
        else Inr (Value (take (length origData - unPadding) origData)))"

definition aes_Encrypt ::
  "key_slice \<Rightarrow> Block option \<Rightarrow> 8 word list \<Rightarrow> fault + 8 word list returned" where
  "aes_Encrypt key block org =
     (case block of
        None \<Rightarrow> Inr (Error ''[aes.Encrypt] block is nil'')
      | Some blk \<Rightarrow>
          if length (key_bytes key) \<le> 0 then Inr (Error ''[aes.Encrypt] key is empty'')
          else if length org \<le> 0 then Inr (Error ''[aes.Encrypt] org is empty'')
          else
            (case pkcs7Padding org (BlockSize blk) of
               Inl e \<Rightarrow> Inl e
             | Inr padded \<Rightarrow>
                 (case slice_to key (BlockSize blk) of
                    Inl e \<Rightarrow> Inl e
                  | Inr iv \<Rightarrow>
                      (case CBCEncrypter_CryptBlocks blk iv padded of
                         Inl e \<Rightarrow> Inl e
                       | Inr ser \<Rightarrow> Inr (Value ser)))))"

definition aes_Decrypt ::
  "key_slice \<Rightarrow> Block option \<Rightarrow> 8 word list \<Rightarrow> fault + 8 word list returned" where
  "aes_Decrypt key block ser =
     (if length (key_bytes key) \<le> 0 then Inr (Error ''[aes.Decrypt] key is empty'')
      else
        (case block of
           None \<Rightarrow> Inl (Panic ''runtime error: invalid memory address or nil pointer dereference'')
         | Some blk \<Rightarrow>
             (case slice_to key (BlockSize blk) of
                Inl e \<Rightarrow> Inl e
              | Inr iv \<Rightarrow>
                  (case CBCDecrypter_CryptBlocks blk iv ser of
                     Inl e \<Rightarrow> Inl e
                   | Inr org \<Rightarrow> pkcs7UnPadding org))))"

declare cbc_encrypt.simps [simp del]
declare cbc_decrypt.simps [simp del]

subsection \<open>CBC and padding round trips\<close>

lemma xor_bytes_length: "length (xor_bytes a b) = min (length a) (length b)"
  by (simp add: xor_bytes_def)

lemma xor_bytes_cancel: "length a = length b \<Longrightarrow> xor_bytes (xor_bytes a b) b = a"
proof (induction a arbitrary: b)
  case Nil
  then show ?case by (simp add: xor_bytes_def)
next
  case (Cons x a)
  then obtain y b' where b: "b = y # b'" by (cases b) auto
  with Cons have "xor_bytes (xor_bytes a b') b' = a" by simp
  then show ?case by (simp add: b xor_bytes_def xor.assoc)
qed

lemma cbc_roundtrip:
  "Block_ok blk \<Longrightarrow> length iv = 16 \<Longrightarrow> 16 dvd length src \<Longrightarrow>
     length (cbc_encrypt blk iv src) = length src \<and>
     cbc_decrypt blk iv (cbc_encrypt blk iv src) = src"
proof (induction blk iv src rule: cbc_encrypt.induct)
  case (1 blk iv src)
  from "1.prems"(1) have bs: "BlockSize blk = 16" by (simp add: Block_ok_def)
  show ?case
  proof (cases "src = []")
    case True
    then show ?thesis by (simp add: cbc_encrypt.simps cbc_decrypt.simps)
  next
    case False
    let ?p = "take 16 src"
    let ?rest = "drop 16 src"
    let ?x = "xor_bytes ?p iv"
    let ?c = "Encrypt_block blk ?x"
    let ?E = "cbc_encrypt blk ?c ?rest"
    from False "1.prems"(3) have ge: "16 \<le> length src"
      by (auto dest: dvd_imp_le)
    then have lp: "length ?p = 16" by simp
    then have lx: "length ?x = 16" using "1.prems"(2) by (simp add: xor_bytes_length)
    from "1.prems"(1) lx have lc: "length ?c = 16" and dc: "Decrypt_block blk ?c = ?x"
      by (simp_all add: Block_ok_def)
    from "1.prems"(3) ge have dr: "16 dvd length ?rest"
      by (simp add: dvd_diff_nat)
    have nz: "\<not> (src = [] \<or> BlockSize blk = 0)" using False bs by simp
    have "length ?E = length ?rest \<and> cbc_decrypt blk ?c ?E = ?rest"
      using "1.IH" [OF nz _ "1.prems"(1) _ _, of ?c] lc dr bs by simp
    then have lE: "length ?E = length ?rest" and rE: "cbc_decrypt blk ?c ?E = ?rest"
      by simp_all
    have enc: "cbc_encrypt blk iv src = ?c @ ?E"
      using False bs by (subst cbc_encrypt.simps) (simp add: Let_def)
    have len: "length (cbc_encrypt blk iv src) = length src"
      using enc lc lE ge by simp
    have "cbc_decrypt blk iv (?c @ ?E) = xor_bytes (Decrypt_block blk ?c) iv @ cbc_decrypt blk ?c ?E"
      using lc bs by (subst cbc_decrypt.simps) (auto simp add: Let_def)
    also have "\<dots> = ?p @ ?rest"
      using dc rE lp "1.prems"(2) by (simp add: xor_bytes_cancel)
    also have "\<dots> = src" by simp
    finally show ?thesis using enc len by simp
  qed
qed

lemma cbc_decrypt_length:
  "BlockSize blk = 16 \<Longrightarrow> (\<forall>x. length x = 16 \<longrightarrow> length (Decrypt_block blk x) = 16) \<Longrightarrow>
     length iv = 16 \<Longrightarrow> 16 dvd length src \<Longrightarrow> length (cbc_decrypt blk iv src) = length src"
proof (induction blk iv src rule: cbc_decrypt.induct)
  case (1 blk iv src)
  show ?case
  proof (cases "src = []")
    case True
    then show ?thesis by (simp add: cbc_decrypt.simps)
  next
    case False
    let ?c = "take 16 src"
    let ?rest = "drop 16 src"
    from False "1.prems"(4) have ge: "16 \<le> length src"
      by (auto dest: dvd_imp_le)
    then have lc: "length ?c = 16" by simp
    from "1.prems"(4) ge have dr: "16 dvd length ?rest"
      by (simp add: dvd_diff_nat)
    have nz: "\<not> (src = [] \<or> BlockSize blk = 0)" using False "1.prems"(1) by simp
    have r: "length (cbc_decrypt blk ?c ?rest) = length ?rest"
      using "1.IH" [OF nz _ "1.prems"(1,2), of ?c] lc dr "1.prems"(1) by simp
    have ld: "length (Decrypt_block blk ?c) = 16" using "1.prems"(2) lc by simp
    have "cbc_decrypt blk iv src = xor_bytes (Decrypt_block blk ?c) iv @ cbc_decrypt blk ?c ?rest"
      using False "1.prems"(1) by (subst cbc_decrypt.simps) (simp add: Let_def)
    then show ?thesis using r ld "1.prems"(3) ge by (simp add: xor_bytes_length)
  qed
qed

lemma pkcs7Padding_16:
  "pkcs7Padding org 16 = Inr (org @ replicate (16 - length org mod 16) (of_nat (16 - length org mod 16)))"
  by (simp add: pkcs7Padding_def Let_def)

lemma unat_pad_byte: "k \<le> 16 \<Longrightarrow> unat (of_nat k :: 8 word) = k"
  by (simp add: unat_of_nat)

lemma pkcs7_roundtrip:
  assumes "padded = org @ replicate (16 - length org mod 16) (of_nat (16 - length org mod 16))"
  shows "16 dvd length padded \<and> pkcs7UnPadding padded = Inr (Value org)"
proof -
  define n where "n = 16 - length org mod 16"
  have n: "0 < n" "n \<le> 16" by (simp_all add: n_def)
  have p: "padded = org @ replicate n (of_nat n)" by (simp add: assms n_def)
  have len: "length padded = length org + n" by (simp add: p)
  have d: "16 dvd length padded"
  proof -
    have "(length org + (16 - length org mod 16)) mod 16 = 0" by presburger
    then show ?thesis by (simp add: len n_def dvd_eq_mod_eq_0)
  qed
  have ne: "padded \<noteq> []" using n len by auto
  have l: "last padded = (of_nat n :: 8 word)" using n by (simp add: p)
  have u: "unat (of_nat n :: 8 word) = n" using n by (simp only: unat_pad_byte)
  have "pkcs7UnPadding padded = Inr (Value (take (length padded - n) padded))"
    using ne n len by (simp add: pkcs7UnPadding_def l u Let_def)
  also have "take (length padded - n) padded = org" by (simp add: len p)
  finally show ?thesis using d by simp
qed

lemma slice_to_long_key:
  "16 \<le> length (key_bytes key) \<Longrightarrow> slice_to key 16 = Inr (take 16 (key_bytes key))"
  by (simp add: slice_to_def)

lemma slice_to_length: "slice_to key n = Inr iv \<Longrightarrow> length iv = n"
  by (auto simp add: slice_to_def split: if_splits)

text \<open>
  C6. For a cipher family that gives a valid block for every key of 16, 24 or 32 bytes:
  with such a key and \<open>block = NewBlock(key)\<close>, \<open>Encrypt\<close> of a non-empty plaintext
  returns the CBC encryption, under the first 16 key bytes as IV, of the PKCS#7-padded
  plaintext, and \<open>Decrypt\<close> of that ciphertext returns the plaintext; \<open>Encrypt\<close> of the
  empty plaintext returns an error.
\<close>

theorem aes_Encrypt_Decrypt_roundtrip:
  assumes "\<forall>k. length k \<in> {16, 24, 32} \<longrightarrow> Block_ok (aes k)"
    and "length (key_bytes key) \<in> {16, 24, 32}"
  shows "\<exists>blk. NewBlock aes key = Value blk \<and>
           (\<forall>org. org \<noteq> [] \<longrightarrow>
              (\<exists>ser. aes_Encrypt key (Some blk) org = Inr (Value ser) \<and>
                 ser = cbc_encrypt blk (take 16 (key_bytes key))
                         (org @ replicate (16 - length org mod 16) (of_nat (16 - length org mod 16))) \<and>
                 aes_Decrypt key (Some blk) ser = Inr (Value org))) \<and>
           aes_Encrypt key (Some blk) [] = Inr (Error ''[aes.Encrypt] org is empty'')"
proof -
  let ?blk = "aes (key_bytes key)"
  let ?iv = "take 16 (key_bytes key)"
  from assms have ok: "Block_ok ?blk" by blast
  then have bs: "BlockSize ?blk = 16" by (simp add: Block_ok_def)
  from assms(2) have kl: "16 \<le> length (key_bytes key)" by auto
  then have kne: "key_bytes key \<noteq> []" by auto
  have iv: "slice_to key 16 = Inr ?iv" by (rule slice_to_long_key [OF kl])
  have liv: "length ?iv = 16" using kl by simp
  have nb: "NewBlock aes key = Value ?blk" using assms(2) by (simp add: NewBlock_def)
  have rt: "\<exists>ser. aes_Encrypt key (Some ?blk) org = Inr (Value ser) \<and>
                 ser = cbc_encrypt ?blk ?iv
                         (org @ replicate (16 - length org mod 16) (of_nat (16 - length org mod 16))) \<and>
                 aes_Decrypt key (Some ?blk) ser = Inr (Value org)"
    if ne: "org \<noteq> []" for org
  proof -
    let ?padded = "org @ replicate (16 - length org mod 16) (of_nat (16 - length org mod 16))"
    let ?ser = "cbc_encrypt ?blk ?iv ?padded"
    from pkcs7_roundtrip [of ?padded org]
    have d: "16 dvd length ?padded" and un: "pkcs7UnPadding ?padded = Inr (Value org)"
      by simp_all
    from d have m: "length ?padded mod 16 = 0" by (simp only: dvd_eq_mod_eq_0)
    from cbc_roundtrip [OF ok liv d]
    have ls: "length ?ser = length ?padded" and dec: "cbc_decrypt ?blk ?iv ?ser = ?padded"
      by simp_all
    have e: "aes_Encrypt key (Some ?blk) org = Inr (Value ?ser)"
      using ne kne m
      by (simp add: aes_Encrypt_def bs pkcs7Padding_16 iv CBCEncrypter_CryptBlocks_def
          del: length_append length_replicate)
    have "aes_Decrypt key (Some ?blk) ?ser = Inr (Value org)"
      using kne m ls dec un
      by (simp add: aes_Decrypt_def bs iv CBCDecrypter_CryptBlocks_def
          del: length_append length_replicate)
    with e show ?thesis by blast
  qed
  have em: "aes_Encrypt key (Some ?blk) [] = Inr (Error ''[aes.Encrypt] org is empty'')"
    using kne by (simp add: aes_Encrypt_def)
  from nb rt em show ?thesis by blast
qed

text \<open>A stand-in cipher for concrete instances: add 1 to every byte, subtract 1.\<close>

definition shift_block :: Block where
  "shift_block = \<lparr>BlockSize = 16, Encrypt_block = map (\<lambda>b. b + 1), Decrypt_block = map (\<lambda>b. b - 1)\<rparr>"

lemma shift_block_ok: "Block_ok shift_block"
  by (simp add: Block_ok_def shift_block_def comp_def)

definition key16 :: key_slice where
  "key16 = \<lparr>key_bytes = [1, 2, 3, 4, 5, 6, 7, 8, 9, 10, 11, 12, 13, 14, 15, 16], key_spare = []\<rparr>"

text \<open>A key of five bytes whose backing array ends with it: \<open>[]byte("abcde")\<close>.\<close>

definition key5 :: key_slice where
  "key5 = \<lparr>key_bytes = [97, 98, 99, 100, 101], key_spare = []\<rparr>"

theorem aes_Encrypt_Decrypt_roundtrip_witness:
  "length (key_bytes key16) \<in> {16, 24, 32} \<and>
   NewBlock (\<lambda>k. shift_block) key16 = Value shift_block \<and>
   (\<exists>ser. aes_Encrypt key16 (Some shift_block) [104, 105] = Inr (Value ser) \<and>
          aes_Decrypt key16 (Some shift_block) ser = Inr (Value [104, 105])) \<and>
   aes_Encrypt key16 (Some shift_block) [] = Inr (Error ''[aes.Encrypt] org is empty'')"
proof -
  have a: "\<forall>k. length k \<in> {16, 24, 32} \<longrightarrow> Block_ok ((\<lambda>k. shift_block) k)"
    by (simp add: shift_block_ok)
  have k: "length (key_bytes key16) \<in> {16, 24, 32}" by (simp add: key16_def)
  from aes_Encrypt_Decrypt_roundtrip [OF a k] obtain blk where
    nb: "NewBlock (\<lambda>k. shift_block) key16 = Value blk" and
    rt: "\<forall>org. org \<noteq> [] \<longrightarrow>
              (\<exists>ser. aes_Encrypt key16 (Some blk) org = Inr (Value ser) \<and>
                 ser = cbc_encrypt blk (take 16 (key_bytes key16))
                         (org @ replicate (16 - length org mod 16) (of_nat (16 - length org mod 16))) \<and>
                 aes_Decrypt key16 (Some blk) ser = Inr (Value org))" and
    em: "aes_Encrypt key16 (Some blk) [] = Inr (Error ''[aes.Encrypt] org is empty'')"
    by blast
  from nb k have b: "blk = shift_block" by (simp add: NewBlock_def)
  from rt [rule_format, of "[104, 105]"]
  have "\<exists>ser. aes_Encrypt key16 (Some blk) [104, 105] = Inr (Value ser) \<and>
          aes_Decrypt key16 (Some blk) ser = Inr (Value [104, 105])"
    by blast
  with nb em k b show ?thesis by simp
qed

subsection \<open>Decrypt on malformed ciphertext\<close>

text \<open>
  C7. With a non-empty key and a valid block, \<open>Decrypt\<close> panics on every ciphertext
  that is empty or whose length is not a multiple of 16. When \<open>key[:16]\<close> is within the
  key's capacity, the empty ciphertext panics in \<open>pkcs7UnPadding\<close>, at
  \<open>origData[length-1]\<close>, and a length that is not a multiple of 16 panics inside
  \<open>CryptBlocks\<close>. When the key's capacity is below 16, every ciphertext panics at
  \<open>key[:16]\<close>, before \<open>CryptBlocks\<close> and \<open>pkcs7UnPadding\<close> are reached. An error is
  returned exactly when \<open>key[:16]\<close> is within capacity, the ciphertext is a non-empty
  whole number of blocks and the last byte of the decrypted buffer is 0 or greater than
  the buffer's length.
\<close>

theorem aes_Decrypt_not_total:
  assumes "key_bytes key \<noteq> []" and "Block_ok blk"
  shows
    "(\<exists>msg. aes_Decrypt key (Some blk) [] = Inl (Panic msg)) \<and>
     (16 \<le> length (key_bytes key) + length (key_spare key) \<longrightarrow>
        aes_Decrypt key (Some blk) [] = Inl (Panic ''runtime error: index out of range [-1]'')) \<and>
     (\<forall>ser. length ser mod 16 \<noteq> 0 \<longrightarrow>
        (\<exists>msg. aes_Decrypt key (Some blk) ser = Inl (Panic msg)) \<and>
        (16 \<le> length (key_bytes key) + length (key_spare key) \<longrightarrow>
           aes_Decrypt key (Some blk) ser = Inl (Panic ''crypto/cipher: input not full blocks''))) \<and>
     (length (key_bytes key) + length (key_spare key) < 16 \<longrightarrow>
        (\<forall>ser. aes_Decrypt key (Some blk) ser =
           Inl (Panic ''runtime error: slice bounds out of range''))) \<and>
     (\<forall>ser e. (aes_Decrypt key (Some blk) ser = Inr (Error e)) =
        (\<exists>iv. slice_to key 16 = Inr iv \<and> ser \<noteq> [] \<and> length ser mod 16 = 0 \<and>
              (unat (last (cbc_decrypt blk iv ser)) = 0 \<or>
               unat (last (cbc_decrypt blk iv ser)) > length ser) \<and>
              e = ''[aes.pkcs7UnPadding] length error''))"
proof -
  from assms(2) have bs: "BlockSize blk = 16"
    and dl: "\<forall>x. length x = 16 \<longrightarrow> length (Decrypt_block blk x) = 16"
    by (simp_all add: Block_ok_def)
  have empty_dec: "cbc_decrypt blk iv [] = []" for iv by (simp add: cbc_decrypt.simps)
  have p1: "\<exists>msg. aes_Decrypt key (Some blk) [] = Inl (Panic msg)"
    using assms(1)
    by (simp add: aes_Decrypt_def bs slice_to_def CBCDecrypter_CryptBlocks_def empty_dec
        pkcs7UnPadding_def)
  have p2: "aes_Decrypt key (Some blk) [] = Inl (Panic ''runtime error: index out of range [-1]'')"
    if "16 \<le> length (key_bytes key) + length (key_spare key)"
    using assms(1) that
    by (simp add: aes_Decrypt_def bs slice_to_def CBCDecrypter_CryptBlocks_def empty_dec
        pkcs7UnPadding_def)
  have p3: "\<exists>msg. aes_Decrypt key (Some blk) ser = Inl (Panic msg)"
    if "length ser mod 16 \<noteq> 0" for ser
    using assms(1) that
    by (simp add: aes_Decrypt_def bs slice_to_def CBCDecrypter_CryptBlocks_def)
  have p4: "aes_Decrypt key (Some blk) ser = Inl (Panic ''crypto/cipher: input not full blocks'')"
    if "length ser mod 16 \<noteq> 0" "16 \<le> length (key_bytes key) + length (key_spare key)" for ser
    using assms(1) that
    by (simp add: aes_Decrypt_def bs slice_to_def CBCDecrypter_CryptBlocks_def)
  have p6: "aes_Decrypt key (Some blk) ser = Inl (Panic ''runtime error: slice bounds out of range'')"
    if "length (key_bytes key) + length (key_spare key) < 16" for ser
    using assms(1) that
    by (simp add: aes_Decrypt_def bs slice_to_def)
  have p5: "(aes_Decrypt key (Some blk) ser = Inr (Error e)) =
        (\<exists>iv. slice_to key 16 = Inr iv \<and> ser \<noteq> [] \<and> length ser mod 16 = 0 \<and>
              (unat (last (cbc_decrypt blk iv ser)) = 0 \<or>
               unat (last (cbc_decrypt blk iv ser)) > length ser) \<and>
              e = ''[aes.pkcs7UnPadding] length error'')" for ser e
  proof (cases "slice_to key 16")
    case (Inl f)
    then show ?thesis using assms(1) by (simp add: aes_Decrypt_def bs)
  next
    case (Inr iv)
    from slice_to_length [OF Inr] have liv: "length iv = 16" .
    show ?thesis
    proof (cases "length ser mod 16 = 0")
      case False
      then show ?thesis using assms(1) Inr
        by (simp add: aes_Decrypt_def bs CBCDecrypter_CryptBlocks_def)
    next
      case True
      then have "16 dvd length ser" by (simp only: dvd_eq_mod_eq_0)
      from cbc_decrypt_length [OF bs dl liv this]
      have ld: "length (cbc_decrypt blk iv ser) = length ser" .
      then have ne: "(cbc_decrypt blk iv ser = []) = (ser = [])" by (metis length_0_conv)
      have "aes_Decrypt key (Some blk) ser = pkcs7UnPadding (cbc_decrypt blk iv ser)"
        using assms(1) Inr True by (simp add: aes_Decrypt_def bs CBCDecrypter_CryptBlocks_def)
      then show ?thesis using Inr True ld ne
        by (auto simp add: pkcs7UnPadding_def Let_def)
    qed
  qed
  from p1 p2 p3 p4 p5 p6 show ?thesis by blast
qed

theorem aes_Decrypt_not_total_witness:
  "key_bytes key16 \<noteq> [] \<and> Block_ok shift_block \<and>
   16 \<le> length (key_bytes key16) + length (key_spare key16) \<and>
   aes_Decrypt key16 (Some shift_block) [] = Inl (Panic ''runtime error: index out of range [-1]'') \<and>
   length [1 :: 8 word, 2, 3] mod 16 \<noteq> 0 \<and>
   aes_Decrypt key16 (Some shift_block) [1, 2, 3] = Inl (Panic ''crypto/cipher: input not full blocks'') \<and>
   key_bytes key5 \<noteq> [] \<and>
   length (key_bytes key5) + length (key_spare key5) < 16 \<and>
   aes_Decrypt key5 (Some shift_block) [1, 2, 3] = Inl (Panic ''runtime error: slice bounds out of range'')"
proof -
  have k: "key_bytes key16 \<noteq> []" by (simp add: key16_def)
  have c: "16 \<le> length (key_bytes key16) + length (key_spare key16)" by (simp add: key16_def)
  have l: "length [1 :: 8 word, 2, 3] mod 16 \<noteq> 0" by simp
  have k5: "key_bytes key5 \<noteq> []" by (simp add: key5_def)
  have c5: "length (key_bytes key5) + length (key_spare key5) < 16" by (simp add: key5_def)
  note t = aes_Decrypt_not_total [OF k shift_block_ok]
  note u = aes_Decrypt_not_total [OF k5 shift_block_ok]
  from t c have a: "aes_Decrypt key16 (Some shift_block) [] = Inl (Panic ''runtime error: index out of range [-1]'')"
    by blast
  from t c l have b: "aes_Decrypt key16 (Some shift_block) [1, 2, 3] = Inl (Panic ''crypto/cipher: input not full blocks'')"
    by blast
  from u c5 have d: "aes_Decrypt key5 (Some shift_block) [1, 2, 3] = Inl (Panic ''runtime error: slice bounds out of range'')"
    by blast
  from k shift_block_ok c a l b k5 c5 d show ?thesis by blast
qed

text \<open>
  The five-byte key of capacity five is non-empty and the block is valid, yet neither
  \<open>pkcs7UnPadding\<close> nor \<open>CryptBlocks\<close> is reached: on the empty ciphertext and on a
  ciphertext of three bytes \<open>Decrypt\<close> panics at \<open>key[:16]\<close>, so the panic is not the
  index panic of \<open>origData[length-1]\<close> and not the \<open>CryptBlocks\<close> one.
\<close>

theorem aes_Decrypt_short_key_counterexample:
  "key_bytes key5 \<noteq> [] \<and> Block_ok shift_block \<and>
   aes_Decrypt key5 (Some shift_block) [] =
     Inl (Panic ''runtime error: slice bounds out of range'') \<and>
   aes_Decrypt key5 (Some shift_block) [] \<noteq>
     Inl (Panic ''runtime error: index out of range [-1]'') \<and>
   length [1 :: 8 word, 2, 3] mod 16 \<noteq> 0 \<and>
   aes_Decrypt key5 (Some shift_block) [1, 2, 3] =
     Inl (Panic ''runtime error: slice bounds out of range'') \<and>
   aes_Decrypt key5 (Some shift_block) [1, 2, 3] \<noteq>
     Inl (Panic ''crypto/cipher: input not full blocks'')"
  by (simp add: aes_Decrypt_def slice_to_def key5_def shift_block_def Block_ok_def comp_def)

section \<open>Package consistenthash\<close>

text \<open>
  Two parts of the rings come from outside the package and are parameters of the model:
  the 64-bit hash \<open>murmur3.New64()\<close> (\<open>sum64\<close>, the value of \<open>Sum64\<close> after writing
  the bytes of a string) and \<open>sort.Sort\<close>, an unstable sort of which the package uses
  the contract only: the result is a permutation of the input, ordered by \<open>Less\<close>.
\<close>

definition sorts_by :: "('a \<Rightarrow> 'h :: linorder) \<Rightarrow> ('a list \<Rightarrow> 'a list) \<Rightarrow> bool" where
  "sorts_by h srt =
     (\<forall>xs. sorted (map h (srt xs)) \<and> (\<forall>x. count_list (srt xs) x = count_list xs x))"

text \<open>
  \<open>sort.Search(n, f)\<close> of the standard library: binary search for the smallest index
  in \<open>[0, n)\<close> at which \<open>f\<close> is true, \<open>n\<close> if there is none.
\<close>

function Search_loop :: "(nat \<Rightarrow> bool) \<Rightarrow> nat \<Rightarrow> nat \<Rightarrow> nat" where
  "Search_loop f i j =
     (if i < j then
        let h = (i + j) div 2 in
        if \<not> f h then Search_loop f (h + 1) j else Search_loop f i h
      else i)"
  by pat_completeness auto
termination
  by (relation "measure (\<lambda>(f, i, j). j - i)") auto

definition Search :: "nat \<Rightarrow> (nat \<Rightarrow> bool) \<Rightarrow> nat" where
  "Search n f = Search_loop f 0 n"

text \<open>\<open>strconv.Itoa\<close> on a non-negative number: its decimal digits.\<close>

function Itoa :: "nat \<Rightarrow> string" where
  "Itoa n = (if n < 10 then [char_of (48 + n)] else Itoa (n div 10) @ [char_of (48 + n mod 10)])"
  by pat_completeness auto
termination
  by (relation "measure id") auto

definition DefaultVirtualSpots :: int where
  "DefaultVirtualSpots = 160"

subsection \<open>The ring with string keys\<close>

record ringNode =
  nodeName :: string
  key_rn :: string
  hash_rn :: "32 word"

record HashRing =
  virtualSpots :: int
  nodes :: "ringNode list"

definition NewRing :: "int \<Rightarrow> HashRing" where
  "NewRing vs = \<lparr>virtualSpots = (if vs \<le> 0 then DefaultVirtualSpots else vs), nodes = []\<rparr>"

text \<open>
  The ring position of a string: \<open>hash.Sum(nil)\<close> is the 64-bit sum in big-endian
  order, and \<open>binary.BigEndian.Uint32\<close> of its last four bytes is its low 32 bits.
\<close>

definition position :: "(string \<Rightarrow> 64 word) \<Rightarrow> string \<Rightarrow> 32 word" where
  "position sum64 s = ucast (sum64 s)"

definition virtual_nodes :: "(string \<Rightarrow> 64 word) \<Rightarrow> int \<Rightarrow> string \<Rightarrow> ringNode list" where
  "virtual_nodes sum64 vs name =
     map (\<lambda>i. let k = name @ '':'' @ Itoa i
               in \<lparr>nodeName = name, key_rn = k, hash_rn = position sum64 k\<rparr>)
         [0..<nat vs]"

definition HashRing_AddNode ::
  "(ringNode list \<Rightarrow> ringNode list) \<Rightarrow> (string \<Rightarrow> 64 word) \<Rightarrow> HashRing \<Rightarrow> string \<Rightarrow> HashRing" where
  "HashRing_AddNode srt sum64 h name =
     h\<lparr>nodes := srt (nodes h @ virtual_nodes sum64 (virtualSpots h) name)\<rparr>"

definition HashRing_RemoveNode :: "HashRing \<Rightarrow> string \<Rightarrow> HashRing" where
  "HashRing_RemoveNode h name = h\<lparr>nodes := filter (\<lambda>n. nodeName n \<noteq> name) (nodes h)\<rparr>"

definition HashRing_GetNode :: "(string \<Rightarrow> 64 word) \<Rightarrow> HashRing \<Rightarrow> string \<Rightarrow> string \<times> bool" where
  "HashRing_GetNode sum64 h k =
     (if length (nodes h) = 0 then ('''', False)
      else
        let targetHash = position sum64 k;
            idx = Search (length (nodes h)) (\<lambda>i. hash_rn (nodes h ! i) \<ge> targetHash);
            idx = (if idx = length (nodes h) then 0 else idx)
        in (nodeName (nodes h ! idx), True))"

datatype ring_op = OpAddNode string | OpRemoveNode string

fun HashRing_apply ::
  "(ringNode list \<Rightarrow> ringNode list) \<Rightarrow> (string \<Rightarrow> 64 word) \<Rightarrow> HashRing \<Rightarrow> ring_op \<Rightarrow> HashRing" where
  "HashRing_apply srt sum64 h (OpAddNode name) = HashRing_AddNode srt sum64 h name"
| "HashRing_apply srt sum64 h (OpRemoveNode name) = HashRing_RemoveNode h name"

definition HashRing_run ::
  "(ringNode list \<Rightarrow> ringNode list) \<Rightarrow> (string \<Rightarrow> 64 word) \<Rightarrow> HashRing \<Rightarrow> ring_op list \<Rightarrow> HashRing" where
  "HashRing_run srt sum64 h ops = foldl (HashRing_apply srt sum64) h ops"

subsection \<open>The ring with int64 keys\<close>

record int64RingNode =
  nodeName64 :: string
  key64 :: "64 word"
  hash64 :: "64 word"

record Int64HashRing =
  virtualSpots64 :: int
  nodes64 :: "int64RingNode list"

definition NewInt64Ring :: "int \<Rightarrow> Int64HashRing" where
  "NewInt64Ring vs = \<lparr>virtualSpots64 = (if vs \<le> 0 then DefaultVirtualSpots else vs), nodes64 = []\<rparr>"

definition virtual_nodes64 :: "(string \<Rightarrow> 64 word) \<Rightarrow> int \<Rightarrow> string \<Rightarrow> int64RingNode list" where
  "virtual_nodes64 sum64 vs name =
     map (\<lambda>i. let keyStr = name @ '':'' @ Itoa i; h64 = sum64 keyStr
               in \<lparr>nodeName64 = name, key64 = h64, hash64 = h64\<rparr>)
         [0..<nat vs]"

definition Int64HashRing_AddNode ::
  "(int64RingNode list \<Rightarrow> int64RingNode list) \<Rightarrow> (string \<Rightarrow> 64 word) \<Rightarrow> Int64HashRing
     \<Rightarrow> string \<Rightarrow> Int64HashRing" where
  "Int64HashRing_AddNode srt sum64 h name =
     h\<lparr>nodes64 := srt (nodes64 h @ virtual_nodes64 sum64 (virtualSpots64 h) name)\<rparr>"

definition Int64HashRing_RemoveNode :: "Int64HashRing \<Rightarrow> string \<Rightarrow> Int64HashRing" where
  "Int64HashRing_RemoveNode h name =
     h\<lparr>nodes64 := filter (\<lambda>n. nodeName64 n \<noteq> name) (nodes64 h)\<rparr>"

text \<open>\<open>targetHash := uint64(key)\<close>: the key's bits, read as unsigned.\<close>

definition Int64HashRing_GetNode :: "Int64HashRing \<Rightarrow> 64 word \<Rightarrow> string \<times> bool" where
  "Int64HashRing_GetNode h k =
     (if length (nodes64 h) = 0 then ('''', False)
      else
        let targetHash = k;
            idx = Search (length (nodes64 h)) (\<lambda>i. hash64 (nodes64 h ! i) \<ge> targetHash);
            idx = (if idx = length (nodes64 h) then 0 else idx)
        in (nodeName64 (nodes64 h ! idx), True))"

fun Int64HashRing_apply ::
  "(int64RingNode list \<Rightarrow> int64RingNode list) \<Rightarrow> (string \<Rightarrow> 64 word) \<Rightarrow> Int64HashRing
     \<Rightarrow> ring_op \<Rightarrow> Int64HashRing" where
  "Int64HashRing_apply srt sum64 h (OpAddNode name) = Int64HashRing_AddNode srt sum64 h name"
| "Int64HashRing_apply srt sum64 h (OpRemoveNode name) = Int64HashRing_RemoveNode h name"

definition Int64HashRing_run ::
  "(int64RingNode list \<Rightarrow> int64RingNode list) \<Rightarrow> (string \<Rightarrow> 64 word) \<Rightarrow> Int64HashRing
     \<Rightarrow> ring_op list \<Rightarrow> Int64HashRing" where
  "Int64HashRing_run srt sum64 h ops = foldl (Int64HashRing_apply srt sum64) h ops"

declare Search_loop.simps [simp del]
declare Itoa.simps [simp del]

subsection \<open>Binary search on a sorted ring\<close>

lemma Search_loop_least:
  "(\<forall>a b. a \<le> b \<and> b < n \<and> f a \<longrightarrow> f b) \<Longrightarrow> i \<le> j \<Longrightarrow> j \<le> n \<Longrightarrow>
   (\<forall>k<i. \<not> f k) \<Longrightarrow> (j < n \<longrightarrow> f j) \<Longrightarrow>
     i \<le> Search_loop f i j \<and> Search_loop f i j \<le> j \<and>
     (\<forall>k < Search_loop f i j. \<not> f k) \<and> (Search_loop f i j < n \<longrightarrow> f (Search_loop f i j))"
proof (induction f i j rule: Search_loop.induct)
  case (1 f i j)
  show ?case
  proof (cases "i < j")
    case False
    with "1.prems" have "i = j" by simp
    with "1.prems" show ?thesis by (simp add: Search_loop.simps [of f j j])
  next
    case True
    define h where "h = (i + j) div 2"
    have hi: "i \<le> h" and hj: "h < j" using True by (simp_all add: h_def)
    show ?thesis
    proof (cases "f h")
      case False
      have below: "\<forall>k<h + 1. \<not> f k"
      proof (intro allI impI)
        fix k assume "k < h + 1"
        then have "k \<le> h" by simp
        moreover have "h < n" using hj "1.prems"(3) by simp
        ultimately show "\<not> f k" using "1.prems"(1) False by blast
      qed
      have eq: "Search_loop f i j = Search_loop f (h + 1) j"
        using True False by (subst Search_loop.simps) (simp add: h_def Let_def)
      from "1.IH"(1) [OF True h_def [symmetric, THEN sym] False "1.prems"(1) _ "1.prems"(3) below "1.prems"(5)] hj
      have "h + 1 \<le> Search_loop f (h + 1) j \<and> Search_loop f (h + 1) j \<le> j \<and>
            (\<forall>k < Search_loop f (h + 1) j. \<not> f k) \<and>
            (Search_loop f (h + 1) j < n \<longrightarrow> f (Search_loop f (h + 1) j))"
        by simp
      with eq hi show ?thesis by simp
    next
      case fh: True
      have hn: "h \<le> n" using hj "1.prems"(3) by simp
      have eq: "Search_loop f i j = Search_loop f i h"
        using True fh by (subst Search_loop.simps) (simp add: h_def Let_def)
      from "1.IH"(2) [OF True h_def [symmetric, THEN sym] _ "1.prems"(1) hi hn "1.prems"(4)] fh
      have "i \<le> Search_loop f i h \<and> Search_loop f i h \<le> h \<and>
            (\<forall>k < Search_loop f i h. \<not> f k) \<and>
            (Search_loop f i h < n \<longrightarrow> f (Search_loop f i h))"
        by simp
      with eq hj show ?thesis by simp
    qed
  qed
qed

text \<open>
  Where a lookup with target position \<open>t\<close> lands on a ring whose positions, in ring
  order, are \<open>hs\<close>: at the first index whose position is at least \<open>t\<close>, which then
  holds the smallest such position; at index 0, the smallest position of all, when no
  position is at least \<open>t\<close>.
\<close>

definition routes_to :: "'h :: linorder list \<Rightarrow> 'h \<Rightarrow> nat \<Rightarrow> bool" where
  "routes_to hs t idx =
     (idx < length hs \<and>
      (if \<exists>u \<in> set hs. t \<le> u
       then t \<le> hs ! idx \<and> (\<forall>k<idx. hs ! k < t) \<and> (\<forall>u \<in> set hs. t \<le> u \<longrightarrow> hs ! idx \<le> u)
       else idx = 0 \<and> (\<forall>u \<in> set hs. hs ! 0 \<le> u)))"

lemma Search_routes:
  fixes hf :: "'a \<Rightarrow> 'h :: linorder"
  assumes srt: "sorted (map hf xs)" and ne: "xs \<noteq> []"
  shows "routes_to (map hf xs) t
           (if Search (length xs) (\<lambda>i. t \<le> hf (xs ! i)) = length xs then 0
            else Search (length xs) (\<lambda>i. t \<le> hf (xs ! i)))"
proof -
  let ?n = "length xs"
  let ?f = "\<lambda>i. t \<le> hf (xs ! i)"
  let ?hs = "map hf xs"
  define r where "r = Search ?n ?f"
  have nth: "?hs ! k = hf (xs ! k)" if "k < ?n" for k using that by simp
  have mono: "\<forall>a b. a \<le> b \<and> b < ?n \<and> ?f a \<longrightarrow> ?f b"
  proof (intro allI impI)
    fix a b assume h: "a \<le> b \<and> b < ?n \<and> ?f a"
    then have "?hs ! a \<le> ?hs ! b" using srt by (simp add: sorted_nth_mono del: nth_map)
    with h show "?f b" by (auto simp add: nth)
  qed
  from Search_loop_least [OF mono, of 0 ?n]
  have rn: "r \<le> ?n" and lo: "\<forall>k<r. \<not> ?f k" and hi: "r < ?n \<longrightarrow> ?f r"
    by (simp_all add: r_def Search_def)
  have mem: "u \<in> set ?hs \<Longrightarrow> \<exists>k < ?n. u = ?hs ! k" for u
    by (metis in_set_conv_nth length_map)
  have pos: "0 < ?n" using ne by simp
  show ?thesis
  proof (cases "r = ?n")
    case True
    have none: "\<not> (\<exists>u \<in> set ?hs. t \<le> u)"
    proof
      assume "\<exists>u \<in> set ?hs. t \<le> u"
      then obtain u where "u \<in> set ?hs" "t \<le> u" by blast
      with mem obtain k where "k < ?n" "t \<le> ?hs ! k" by blast
      with lo True show False by (simp add: nth)
    qed
    have least: "\<forall>u \<in> set ?hs. ?hs ! 0 \<le> u"
    proof
      fix u assume "u \<in> set ?hs"
      with mem obtain k where "k < ?n" "u = ?hs ! k" by blast
      with srt show "?hs ! 0 \<le> u" by (simp add: sorted_nth_mono del: nth_map)
    qed
    from True none least pos show ?thesis
      unfolding routes_to_def r_def [symmetric] by simp
  next
    case False
    with rn have rlt: "r < ?n" by simp
    with hi have ge: "t \<le> ?hs ! r" by (simp add: nth)
    then have some: "\<exists>u \<in> set ?hs. t \<le> u" using rlt by (metis length_map nth_mem)
    have before: "\<forall>k<r. ?hs ! k < t"
    proof (intro allI impI)
      fix k assume "k < r"
      with lo rlt show "?hs ! k < t" by (simp add: nth not_le)
    qed
    have least: "\<forall>u \<in> set ?hs. t \<le> u \<longrightarrow> ?hs ! r \<le> u"
    proof (intro ballI impI)
      fix u assume "u \<in> set ?hs" "t \<le> u"
      with mem obtain k where k: "k < ?n" "u = ?hs ! k" "t \<le> ?hs ! k" by blast
      have "r \<le> k"
      proof (rule ccontr)
        assume "\<not> r \<le> k"
        then have "k < r" by simp
        with before k(3) show False by auto
      qed
      with srt k show "?hs ! r \<le> u" by (simp add: sorted_nth_mono del: nth_map)
    qed
    from False rlt ge some before least show ?thesis
      unfolding routes_to_def r_def [symmetric] by simp
  qed
qed

lemma HashRing_run_sorted:
  "sorts_by hash_rn srt \<Longrightarrow> sorted (map hash_rn (nodes h)) \<Longrightarrow>
     sorted (map hash_rn (nodes (HashRing_run srt sum64 h ops)))"
proof (induction ops arbitrary: h)
  case Nil
  then show ?case by (simp add: HashRing_run_def)
next
  case (Cons op ops)
  have "sorted (map hash_rn (nodes (HashRing_apply srt sum64 h op)))"
  proof (cases op)
    case (OpAddNode name)
    with Cons.prems(1) show ?thesis by (simp add: HashRing_AddNode_def sorts_by_def)
  next
    case (OpRemoveNode name)
    with Cons.prems(2) show ?thesis by (simp add: HashRing_RemoveNode_def sorted_filter)
  qed
  from Cons.IH [OF Cons.prems(1) this] show ?case by (simp add: HashRing_run_def)
qed

lemma Int64HashRing_run_sorted:
  "sorts_by hash64 srt \<Longrightarrow> sorted (map hash64 (nodes64 h)) \<Longrightarrow>
     sorted (map hash64 (nodes64 (Int64HashRing_run srt sum64 h ops)))"
proof (induction ops arbitrary: h)
  case Nil
  then show ?case by (simp add: Int64HashRing_run_def)
next
  case (Cons op ops)
  have "sorted (map hash64 (nodes64 (Int64HashRing_apply srt sum64 h op)))"
  proof (cases op)
    case (OpAddNode name)
    with Cons.prems(1) show ?thesis by (simp add: Int64HashRing_AddNode_def sorts_by_def)
  next
    case (OpRemoveNode name)
    with Cons.prems(2) show ?thesis by (simp add: Int64HashRing_RemoveNode_def sorted_filter)
  qed
  from Cons.IH [OF Cons.prems(1) this] show ?case by (simp add: Int64HashRing_run_def)
qed

lemma HashRing_GetNode_sorted:
  assumes "sorted (map hash_rn (nodes h))"
  shows "(nodes h = [] \<longrightarrow> HashRing_GetNode sum64 h k = ('''', False)) \<and>
         (nodes h \<noteq> [] \<longrightarrow>
            (\<exists>idx. routes_to (map hash_rn (nodes h)) (position sum64 k) idx \<and>
                   HashRing_GetNode sum64 h k = (nodeName (nodes h ! idx), True)))"
proof (cases "nodes h = []")
  case True
  then show ?thesis by (simp add: HashRing_GetNode_def)
next
  case False
  from Search_routes [OF assms False, of "position sum64 k"] False show ?thesis
    by (auto simp add: HashRing_GetNode_def Let_def)
qed

lemma Int64HashRing_GetNode_sorted:
  assumes "sorted (map hash64 (nodes64 h))"
  shows "(nodes64 h = [] \<longrightarrow> Int64HashRing_GetNode h k = ('''', False)) \<and>
         (nodes64 h \<noteq> [] \<longrightarrow>
            (\<exists>idx. routes_to (map hash64 (nodes64 h)) k idx \<and>
                   Int64HashRing_GetNode h k = (nodeName64 (nodes64 h ! idx), True)))"
proof (cases "nodes64 h = []")
  case True
  then show ?thesis by (simp add: Int64HashRing_GetNode_def)
next
  case False
  from Search_routes [OF assms False, of k] False show ?thesis
    by (auto simp add: Int64HashRing_GetNode_def Let_def)
qed

text \<open>
  C8. On every ring reached from a new ring by \<open>AddNode\<close> and \<open>RemoveNode\<close> calls, for
  both kinds of ring and every key: \<open>GetNode\<close> returns \<open>("", false)\<close> when the ring is
  empty; otherwise it returns the owner of the first virtual node, in ring order, whose
  position is at least the key's position, and that node holds the smallest such
  position; when no position is at least the key's, it returns the owner of the virtual
  node at index 0, which holds the smallest position of the ring.
\<close>

theorem GetNode_routes_to_successor:
  assumes "sorts_by hash_rn srt" and "sorts_by hash64 srt64"
  shows
    "(let h = HashRing_run srt sum64 (NewRing vs) ops in
        (nodes h = [] \<longrightarrow> HashRing_GetNode sum64 h k = ('''', False)) \<and>
        (nodes h \<noteq> [] \<longrightarrow>
           (\<exists>idx. routes_to (map hash_rn (nodes h)) (position sum64 k) idx \<and>
                  HashRing_GetNode sum64 h k = (nodeName (nodes h ! idx), True)))) \<and>
     (let h = Int64HashRing_run srt64 sum64 (NewInt64Ring vs) ops in
        (nodes64 h = [] \<longrightarrow> Int64HashRing_GetNode h k64 = ('''', False)) \<and>
        (nodes64 h \<noteq> [] \<longrightarrow>
           (\<exists>idx. routes_to (map hash64 (nodes64 h)) k64 idx \<and>
                  Int64HashRing_GetNode h k64 = (nodeName64 (nodes64 h ! idx), True))))"
proof -
  have s: "sorted (map hash_rn (nodes (HashRing_run srt sum64 (NewRing vs) ops)))"
    by (rule HashRing_run_sorted [OF assms(1)]) (simp add: NewRing_def)
  have s64: "sorted (map hash64 (nodes64 (Int64HashRing_run srt64 sum64 (NewInt64Ring vs) ops)))"
    by (rule Int64HashRing_run_sorted [OF assms(2)]) (simp add: NewInt64Ring_def)
  from HashRing_GetNode_sorted [OF s] Int64HashRing_GetNode_sorted [OF s64]
  show ?thesis by (simp add: Let_def)
qed

text \<open>Concrete instances: insertion sort for \<open>sort.Sort\<close>, FNV-1a as a stand-in hash.\<close>

lemma count_list_insort_key:
  "count_list (insort_key f a xs) x = count_list (a # xs) x"
  by (induction xs) auto

lemma count_list_sort_key: "count_list (sort_key f xs) x = count_list xs x"
  by (induction xs) (simp_all add: count_list_insort_key)

lemma sorts_by_sort_key: "sorts_by f (sort_key f)"
  by (simp add: sorts_by_def count_list_sort_key)

definition fnv_sum64 :: "string \<Rightarrow> 64 word" where
  "fnv_sum64 s = ucast (fnv32 s)"

definition ring_b :: HashRing where
  "ring_b = HashRing_run (sort_key hash_rn) fnv_sum64 (NewRing 2)
              [OpAddNode ''a'', OpAddNode ''b'', OpRemoveNode ''a'']"

definition ring64_b :: Int64HashRing where
  "ring64_b = Int64HashRing_run (sort_key hash64) fnv_sum64 (NewInt64Ring 2)
                [OpAddNode ''a'', OpAddNode ''b'', OpRemoveNode ''a'']"

lemma ring_b_nodes:
  "nodes ring_b = [\<lparr>nodeName = ''b'', key_rn = ''b:1'', hash_rn = 916021364\<rparr>,
                   \<lparr>nodeName = ''b'', key_rn = ''b:0'', hash_rn = 932798983\<rparr>]"
  by code_simp

lemma ring64_b_nodes:
  "map nodeName64 (nodes64 ring64_b) = [''b'', ''b'']"
  by code_simp

theorem GetNode_routes_to_successor_witness:
  "sorts_by hash_rn (sort_key hash_rn) \<and> sorts_by hash64 (sort_key hash64) \<and>
   nodes (HashRing_run (sort_key hash_rn) fnv_sum64 (NewRing 2) []) = [] \<and>
   HashRing_GetNode fnv_sum64 (HashRing_run (sort_key hash_rn) fnv_sum64 (NewRing 2) []) ''k''
     = ('''', False) \<and>
   nodes ring_b \<noteq> [] \<and>
   (\<exists>idx. routes_to (map hash_rn (nodes ring_b)) (position fnv_sum64 ''k'') idx \<and>
          HashRing_GetNode fnv_sum64 ring_b ''k'' = (nodeName (nodes ring_b ! idx), True)) \<and>
   nodes64 ring64_b \<noteq> [] \<and>
   (\<exists>idx. routes_to (map hash64 (nodes64 ring64_b)) 7 idx \<and>
          Int64HashRing_GetNode ring64_b 7 = (nodeName64 (nodes64 ring64_b ! idx), True))"
proof -
  note s = sorts_by_sort_key [of hash_rn]
  note s64 = sorts_by_sort_key [of hash64]
  have e: "nodes (HashRing_run (sort_key hash_rn) fnv_sum64 (NewRing 2) []) = []"
    by (simp add: HashRing_run_def NewRing_def)
  have n: "nodes ring_b \<noteq> []" by (simp add: ring_b_nodes)
  have n64: "nodes64 ring64_b \<noteq> []" using ring64_b_nodes by auto
  from GetNode_routes_to_successor [OF s s64, of fnv_sum64 2 "[]" "''k''" 7] e
  have a: "HashRing_GetNode fnv_sum64 (HashRing_run (sort_key hash_rn) fnv_sum64 (NewRing 2) []) ''k''
     = ('''', False)"
    by (simp add: Let_def)
  from GetNode_routes_to_successor [OF s s64, of fnv_sum64 2
      "[OpAddNode ''a'', OpAddNode ''b'', OpRemoveNode ''a'']" "''k''" 7] n n64
  have b: "\<exists>idx. routes_to (map hash_rn (nodes ring_b)) (position fnv_sum64 ''k'') idx \<and>
          HashRing_GetNode fnv_sum64 ring_b ''k'' = (nodeName (nodes ring_b ! idx), True)"
    and c: "\<exists>idx. routes_to (map hash64 (nodes64 ring64_b)) 7 idx \<and>
          Int64HashRing_GetNode ring64_b 7 = (nodeName64 (nodes64 ring64_b ! idx), True)"
    by (simp_all add: Let_def ring_b_def [symmetric] ring64_b_def [symmetric])
  from s s64 e a n b n64 c show ?thesis by blast
qed

section \<open>Package sync: the Stopper\<close>

text \<open>
  The state of a \<open>Stopper\<close>: its two mutexes (\<open>True\<close> when held), its three channels
  (\<open>True\<close> once closed) and its two atomic flags. The stop timeout only bounds how long
  \<open>DoStop\<close> waits for the stop function and has no part in the transitions.
\<close>

record Stopper =
  triggerLock :: bool
  stopTrigger :: bool
  stopTriggered :: bool
  stoppingLock :: bool
  stoppingChan :: bool
  isStopping :: bool
  stoppedChan :: bool
  stopTimeout :: int

definition NewStopper :: "int \<Rightarrow> Stopper" where
  "NewStopper timeout =
     \<lparr>triggerLock = False, stopTrigger = False, stopTriggered = False,
      stoppingLock = False, stoppingChan = False, isStopping = False,
      stoppedChan = False, stopTimeout = timeout\<rparr>"

text \<open>
  The system state is the \<open>Stopper\<close> and the list of stop functions invoked so far,
  oldest first; a stop function is known by a number.

  A call is a sequence of atomic actions on the shared state: a load or store of an
  atomic flag, a lock or unlock of a mutex, the close of a channel, the start of the stop
  function. The program points of \<open>TriggerStop\<close> and \<open>DoStop\<close> name the action that comes
  next. A \<open>Lock\<close> on a held mutex waits: the step leaves everything as it is. Closing a
  closed channel panics.
\<close>

type_synonym stopper_sys = "Stopper \<times> nat list"

datatype trigger_pc =
  T_check | T_lock | T_recheck | T_close | T_store | T_unlock | T_done

datatype dostop_pc =
  D_check | D_lock | D_recheck | D_close_stopping | D_store | D_unlock | D_run
  | D_close_stopped | D_done

text \<open>
  \<open>TriggerStop\<close>: the \<open>return\<close> at the second check leaves \<open>TriggerStop\<close> itself, through
  the deferred unlock.
\<close>

fun TriggerStop_step :: "stopper_sys \<Rightarrow> trigger_pc \<Rightarrow> fault + (stopper_sys \<times> trigger_pc)" where
  "TriggerStop_step (s, fs) T_check =
     Inr ((s, fs), if stopTriggered s then T_done else T_lock)"
| "TriggerStop_step (s, fs) T_lock =
     (if triggerLock s then Inr ((s, fs), T_lock)
      else Inr ((s\<lparr>triggerLock := True\<rparr>, fs), T_recheck))"
| "TriggerStop_step (s, fs) T_recheck =
     Inr ((s, fs), if stopTriggered s then T_unlock else T_close)"
| "TriggerStop_step (s, fs) T_close =
     (if stopTrigger s then Inl (Panic ''close of closed channel'')
      else Inr ((s\<lparr>stopTrigger := True\<rparr>, fs), T_store))"
| "TriggerStop_step (s, fs) T_store =
     Inr ((s\<lparr>stopTriggered := True\<rparr>, fs), T_unlock)"
| "TriggerStop_step (s, fs) T_unlock =
     Inr ((s\<lparr>triggerLock := False\<rparr>, fs), T_done)"
| "TriggerStop_step (s, fs) T_done = Inr ((s, fs), T_done)"

text \<open>
  \<open>DoStop(f)\<close>: the locked section is the body of a function literal that is called at
  once. The \<open>return\<close> at its second check leaves the literal, through its deferred
  unlock; \<open>DoStop\<close> then goes on to start \<open>f\<close> and, deferred, to close \<open>stoppedChan\<close>.
\<close>

fun DoStop_step :: "nat \<Rightarrow> stopper_sys \<Rightarrow> dostop_pc \<Rightarrow> fault + (stopper_sys \<times> dostop_pc)" where
  "DoStop_step f (s, fs) D_check =
     Inr ((s, fs), if isStopping s then D_done else D_lock)"
| "DoStop_step f (s, fs) D_lock =
     (if stoppingLock s then Inr ((s, fs), D_lock)
      else Inr ((s\<lparr>stoppingLock := True\<rparr>, fs), D_recheck))"
| "DoStop_step f (s, fs) D_recheck =
     Inr ((s, fs), if isStopping s then D_unlock else D_close_stopping)"
| "DoStop_step f (s, fs) D_close_stopping =
     (if stoppingChan s then Inl (Panic ''close of closed channel'')
      else Inr ((s\<lparr>stoppingChan := True\<rparr>, fs), D_store))"
| "DoStop_step f (s, fs) D_store =
     Inr ((s\<lparr>isStopping := True\<rparr>, fs), D_unlock)"
| "DoStop_step f (s, fs) D_unlock =
     Inr ((s\<lparr>stoppingLock := False\<rparr>, fs), D_run)"
| "DoStop_step f (s, fs) D_run =
     Inr ((s, fs @ [f]), D_close_stopped)"
| "DoStop_step f (s, fs) D_close_stopped =
     (if stoppedChan s then Inl (Panic ''close of closed channel'')
      else Inr ((s\<lparr>stoppedChan := True\<rparr>, fs), D_done))"
| "DoStop_step f (s, fs) D_done = Inr ((s, fs), D_done)"

text \<open>A call in progress, and one step of it.\<close>

datatype stopper_call = TriggerStop_at trigger_pc | DoStop_at nat dostop_pc

fun call_step :: "stopper_sys \<Rightarrow> stopper_call \<Rightarrow> fault + (stopper_sys \<times> stopper_call)" where
  "call_step sys (TriggerStop_at pc) =
     (case TriggerStop_step sys pc of
        Inl e \<Rightarrow> Inl e
      | Inr (sys', pc') \<Rightarrow> Inr (sys', TriggerStop_at pc'))"
| "call_step sys (DoStop_at f pc) =
     (case DoStop_step f sys pc of
        Inl e \<Rightarrow> Inl e
      | Inr (sys', pc') \<Rightarrow> Inr (sys', DoStop_at f pc'))"

fun call_done :: "stopper_call \<Rightarrow> bool" where
  "call_done (TriggerStop_at pc) = (pc = T_done)"
| "call_done (DoStop_at f pc) = (pc = D_done)"

text \<open>
  Calls made one after the other: a call runs alone until it has returned. No call has
  more than eight actions.
\<close>

fun call_steps :: "nat \<Rightarrow> stopper_sys \<Rightarrow> stopper_call \<Rightarrow> fault + (stopper_sys \<times> stopper_call)" where
  "call_steps 0 sys c = Inr (sys, c)"
| "call_steps (Suc n) sys c =
     (case call_step sys c of
        Inl e \<Rightarrow> Inl e
      | Inr (sys', c') \<Rightarrow> call_steps n sys' c')"

definition Stopper_TriggerStop :: "stopper_sys \<Rightarrow> fault + (stopper_sys \<times> stopper_call)" where
  "Stopper_TriggerStop sys = call_steps 8 sys (TriggerStop_at T_check)"

definition Stopper_DoStop :: "stopper_sys \<Rightarrow> nat \<Rightarrow> fault + (stopper_sys \<times> stopper_call)" where
  "Stopper_DoStop sys f = call_steps 8 sys (DoStop_at f D_check)"

text \<open>
  Calls made by several goroutines: a schedule names, step by step, the goroutine that
  performs its next action.
\<close>

fun run_schedule ::
  "stopper_sys \<Rightarrow> stopper_call list \<Rightarrow> nat list \<Rightarrow> fault + (stopper_sys \<times> stopper_call list)" where
  "run_schedule sys calls [] = Inr (sys, calls)"
| "run_schedule sys calls (g # sched) =
     (if g < length calls then
        (case call_step sys (calls ! g) of
           Inl e \<Rightarrow> Inl e
         | Inr (sys', c') \<Rightarrow> run_schedule sys' (calls[g := c']) sched)
      else run_schedule sys calls sched)"

text \<open>The calls of the interface, and a sequence of them made one after the other.\<close>

datatype stopper_api = CallTriggerStop | CallDoStop nat

fun Stopper_call :: "stopper_sys \<Rightarrow> stopper_api \<Rightarrow> fault + (stopper_sys \<times> stopper_call)" where
  "Stopper_call sys CallTriggerStop = Stopper_TriggerStop sys"
| "Stopper_call sys (CallDoStop f) = Stopper_DoStop sys f"

fun Stopper_calls :: "stopper_sys \<Rightarrow> stopper_api list \<Rightarrow> fault + stopper_sys" where
  "Stopper_calls sys [] = Inr sys"
| "Stopper_calls sys (a # rest) =
     (case Stopper_call sys a of
        Inl e \<Rightarrow> Inl e
      | Inr (sys', c) \<Rightarrow> Stopper_calls sys' rest)"

fun stop_functions :: "stopper_api list \<Rightarrow> nat list" where
  "stop_functions [] = []"
| "stop_functions (CallTriggerStop # rest) = stop_functions rest"
| "stop_functions (CallDoStop f # rest) = f # stop_functions rest"

subsection \<open>Calls made one after the other\<close>

definition Stopper_idle :: "stopper_sys \<Rightarrow> bool" where
  "Stopper_idle sys =
     (case sys of (s, fs) \<Rightarrow>
        \<not> triggerLock s \<and> \<not> stoppingLock s \<and> stopTrigger s = stopTriggered s \<and>
        stoppingChan s = isStopping s \<and> stoppedChan s = isStopping s \<and>
        (if isStopping s then length fs = 1 else fs = []))"

lemma Stopper_TriggerStop_idle:
  assumes "Stopper_idle (s, fs)"
  shows "Stopper_TriggerStop (s, fs) =
           Inr ((s\<lparr>stopTrigger := True, stopTriggered := True\<rparr>, fs), TriggerStop_at T_done)"
  using assms
  by (cases "stopTriggered s")
     (simp_all add: Stopper_TriggerStop_def Stopper_idle_def eval_nat_numeral)

lemma Stopper_DoStop_idle:
  assumes "Stopper_idle (s, fs)"
  shows "Stopper_DoStop (s, fs) f =
           (if isStopping s then Inr ((s, fs), DoStop_at f D_done)
            else Inr ((s\<lparr>stoppingChan := True, isStopping := True, stoppedChan := True\<rparr>,
                       fs @ [f]), DoStop_at f D_done))"
  using assms
  by (cases "isStopping s")
     (simp_all add: Stopper_DoStop_def Stopper_idle_def eval_nat_numeral)

lemma Stopper_calls_idle:
  assumes "Stopper_idle (s, fs)"
  shows "\<exists>s' fs'. Stopper_calls (s, fs) cs = Inr (s', fs') \<and> Stopper_idle (s', fs') \<and>
           stopTriggered s' = (stopTriggered s \<or> CallTriggerStop \<in> set cs) \<and>
           isStopping s' = (isStopping s \<or> stop_functions cs \<noteq> []) \<and>
           fs' = (if isStopping s then fs else take 1 (stop_functions cs))"
  using assms
proof (induction cs arbitrary: s fs)
  case Nil
  then show ?case by (auto simp add: Stopper_idle_def)
next
  case (Cons a cs)
  show ?case
  proof (cases a)
    case CallTriggerStop
    let ?s1 = "s\<lparr>stopTrigger := True, stopTriggered := True\<rparr>"
    have i1: "Stopper_idle (?s1, fs)" using Cons.prems by (simp add: Stopper_idle_def)
    from Cons.IH [OF i1] Stopper_TriggerStop_idle [OF Cons.prems] CallTriggerStop
    show ?thesis by auto
  next
    case (CallDoStop f)
    show ?thesis
    proof (cases "isStopping s")
      case True
      from Cons.IH [OF Cons.prems] Stopper_DoStop_idle [OF Cons.prems, of f] CallDoStop True
      show ?thesis by auto
    next
      case False
      let ?s1 = "s\<lparr>stoppingChan := True, isStopping := True, stoppedChan := True\<rparr>"
      from False Cons.prems have e: "fs = []" by (simp add: Stopper_idle_def)
      have i1: "Stopper_idle (?s1, fs @ [f])" using Cons.prems False
        by (simp add: Stopper_idle_def)
      from Cons.IH [OF i1] Stopper_DoStop_idle [OF Cons.prems, of f] CallDoStop False e
      show ?thesis by auto
    qed
  qed
qed

text \<open>
  From a new \<open>Stopper\<close>, calls made one after the other all return; the trigger channel
  is closed and the flag set exactly when there was a \<open>TriggerStop\<close>; the stopping and
  stopped channels are closed and the flag set exactly when there was a \<open>DoStop\<close>; and
  the only stop function invoked is that of the first \<open>DoStop\<close>.
\<close>

lemma Stopper_calls_once:
  "\<exists>s fs. Stopper_calls (NewStopper timeout, []) cs = Inr (s, fs) \<and>
     stopTrigger s = (CallTriggerStop \<in> set cs) \<and>
     stopTriggered s = (CallTriggerStop \<in> set cs) \<and>
     stoppingChan s = (stop_functions cs \<noteq> []) \<and>
     isStopping s = (stop_functions cs \<noteq> []) \<and>
     stoppedChan s = (stop_functions cs \<noteq> []) \<and>
     fs = take 1 (stop_functions cs)"
proof -
  have i: "Stopper_idle (NewStopper timeout, [])"
    by (simp add: Stopper_idle_def NewStopper_def)
  from Stopper_calls_idle [OF i, of cs] show ?thesis
    by (auto simp add: Stopper_idle_def NewStopper_def)
qed

subsection \<open>Two overlapping DoStop calls\<close>

text \<open>
  Goroutine 0 calls \<open>DoStop(f1)\<close> and goroutine 1 calls \<open>DoStop(f2)\<close> on a new
  \<open>Stopper\<close>. Both make the first check of the flag before either has set it. Then
  goroutine 0 runs its call to the end, and goroutine 1 goes on.
\<close>

definition both_checked :: "nat list" where
  "both_checked = [0, 1]"

definition first_returns :: "nat list" where
  "first_returns = [0, 0, 0, 0, 0, 0, 0]"

lemma overlap_first_returns:
  "run_schedule (NewStopper 5, []) [DoStop_at 1 D_check, DoStop_at 2 D_check]
     (both_checked @ first_returns)
   = Inr ((\<lparr>triggerLock = False, stopTrigger = False, stopTriggered = False,
            stoppingLock = False, stoppingChan = True, isStopping = True,
            stoppedChan = True, stopTimeout = 5\<rparr>, [1]),
          [DoStop_at 1 D_done, DoStop_at 2 D_lock])"
  by (simp add: both_checked_def first_returns_def NewStopper_def)

lemma overlap_second_runs:
  "run_schedule (NewStopper 5, []) [DoStop_at 1 D_check, DoStop_at 2 D_check]
     (both_checked @ first_returns @ [1, 1, 1, 1])
   = Inr ((\<lparr>triggerLock = False, stopTrigger = False, stopTriggered = False,
            stoppingLock = False, stoppingChan = True, isStopping = True,
            stoppedChan = True, stopTimeout = 5\<rparr>, [1, 2]),
          [DoStop_at 1 D_done, DoStop_at 2 D_close_stopped])"
  by (simp add: both_checked_def first_returns_def NewStopper_def)

lemma overlap_second_panics:
  "run_schedule (NewStopper 5, []) [DoStop_at 1 D_check, DoStop_at 2 D_check]
     (both_checked @ first_returns @ [1, 1, 1, 1, 1])
   = Inl (Panic ''close of closed channel'')"
  by (simp add: both_checked_def first_returns_def NewStopper_def)

text \<open>
  C9, at a concrete schedule. After the first \<open>DoStop\<close> has returned, the second one,
  which had only made its first check, finds the flag set at its second check, leaves
  the locked section, and still starts its stop function: both functions have been
  invoked. Its deferred close of the stopped channel, closed already, panics.
\<close>

theorem DoStop_overlap_runs_twice:
  "run_schedule (NewStopper 5, []) [DoStop_at 1 D_check, DoStop_at 2 D_check]
     (both_checked @ first_returns @ [1, 1, 1, 1])
   = Inr ((\<lparr>triggerLock = False, stopTrigger = False, stopTriggered = False,
            stoppingLock = False, stoppingChan = True, isStopping = True,
            stoppedChan = True, stopTimeout = 5\<rparr>, [1, 2]),
          [DoStop_at 1 D_done, DoStop_at 2 D_close_stopped]) \<and>
   run_schedule (NewStopper 5, []) [DoStop_at 1 D_check, DoStop_at 2 D_check]
     (both_checked @ first_returns @ [1, 1, 1, 1, 1])
   = Inl (Panic ''close of closed channel'')"
  using overlap_second_runs overlap_second_panics by simp

text \<open>
  The same schedule with two \<open>TriggerStop\<close> calls: the second call finds the flag set
  at its second check and returns; the trigger channel has been closed once.
\<close>

lemma TriggerStop_overlap_once:
  "run_schedule (NewStopper 5, []) [TriggerStop_at T_check, TriggerStop_at T_check]
     (both_checked @ [0, 0, 0, 0, 0] @ [1, 1, 1])
   = Inr ((\<lparr>triggerLock = False, stopTrigger = True, stopTriggered = True,
            stoppingLock = False, stoppingChan = False, isStopping = False,
            stoppedChan = False, stopTimeout = 5\<rparr>, []),
          [TriggerStop_at T_done, TriggerStop_at T_done])"
  by (simp add: both_checked_def NewStopper_def)

section \<open>Package id: zone packing\<close>

text \<open>\<open>const zoneBit = 8\<close> and \<open>MaxZone = (1 << zoneBit) - 1\<close>.\<close>

definition zoneBit :: nat where
  "zoneBit = 8"

definition MaxZone :: "64 word" where
  "MaxZone = push_bit zoneBit 1 - 1"

text \<open>
  \<open>return zoneId << zoneBit & int64(zone)\<close>: in Go \<open><<\<close> and \<open>&\<close> have the same
  precedence and associate to the left; \<open>int64(zone)\<close> zero-extends the \<open>uint8\<close>.
\<close>

definition CombineZoneId :: "64 word \<Rightarrow> 8 word \<Rightarrow> 64 word" where
  "CombineZoneId zoneId zone = (push_bit zoneBit zoneId) AND ucast zone"

text \<open>
  \<open>return id >> zoneBit, uint8(id & MaxZone)\<close>: \<open>>>\<close> on \<open>int64\<close> is the arithmetic
  shift; \<open>uint8(...)\<close> keeps the low 8 bits.
\<close>

definition SplitId :: "64 word \<Rightarrow> 64 word \<times> 8 word" where
  "SplitId ident = (signed_drop_bit zoneBit ident, ucast (ident AND MaxZone))"

lemma CombineZoneId_zero: "CombineZoneId zoneId zone = 0"
proof (rule bit_eqI)
  fix n
  show "bit (CombineZoneId zoneId zone) n = bit (0 :: 64 word) n"
    by (auto simp add: CombineZoneId_def zoneBit_def bit_simps dest: bit_imp_le_length)
qed

lemma SplitId_zero: "SplitId 0 = (0, 0)"
  by (simp add: SplitId_def)

text \<open>
  C3. \<open>CombineZoneId\<close> returns 0 for every zone id and zone byte, so
  \<open>SplitId (CombineZoneId zoneId zone) = (0, 0)\<close>, and \<open>SplitId\<close> does not give the
  arguments back unless both are 0.
\<close>

theorem CombineZoneId_always_zero:
  "CombineZoneId zoneId zone = 0 \<and>
   SplitId (CombineZoneId zoneId zone) = (0, 0) \<and>
   (zoneId \<noteq> 0 \<or> zone \<noteq> 0 \<longrightarrow> SplitId (CombineZoneId zoneId zone) \<noteq> (zoneId, zone))"
  by (auto simp add: CombineZoneId_zero SplitId_zero)

theorem CombineZoneId_always_zero_witness:
  "(1 :: 64 word) \<noteq> 0 \<and>
   CombineZoneId 1 2 = 0 \<and> SplitId (CombineZoneId 1 2) = (0, 0) \<and>
   SplitId (CombineZoneId 1 2) \<noteq> (1, 2)"
proof -
  have h: "(1 :: 64 word) \<noteq> 0" by simp
  from CombineZoneId_always_zero [of 1 2] h show ?thesis by blast
qed

section \<open>Package id: the string form of an id\<close>

text \<open>
  \<open>strconv.FormatInt(id, 10)\<close>: a minus sign for a negative number, then the decimal
  digits of its magnitude.
\<close>

definition FormatInt :: "64 word \<Rightarrow> string" where
  "FormatInt i = (if sint i < 0 then ''-'' @ Itoa (nat (- sint i)) else Itoa (nat (sint i)))"

text \<open>
  \<open>strconv.ParseUint(s, 10, 64)\<close> reads the digits from the left. A character that is
  not a decimal digit (a byte from 48 to 57) is a syntax error; a value that does not fit 64 bits is a range
  error, found at the digit that overflows.
\<close>

datatype num_error = ErrSyntax | ErrRange

fun ParseUint_loop :: "string \<Rightarrow> nat \<Rightarrow> num_error + nat" where
  "ParseUint_loop [] n = Inr n"
| "ParseUint_loop (c # cs) n =
     (if (48 :: nat) \<le> of_char c \<and> of_char c \<le> (57 :: nat) then
        let d = of_char c - (48 :: nat) in
        if n \<ge> (2 ^ 64 - 1) div 10 + 1 then Inl ErrRange
        else
          let n1 = n * 10 + d in
          if n1 > 2 ^ 64 - 1 then Inl ErrRange else ParseUint_loop cs n1
      else Inl ErrSyntax)"

definition ParseUint :: "string \<Rightarrow> num_error + nat" where
  "ParseUint s = (if s = [] then Inl ErrSyntax else ParseUint_loop s 0)"

text \<open>
  \<open>strconv.ParseInt(s, 10, 64)\<close>: an optional sign, then \<open>ParseUint\<close>; the magnitude is
  at most \<open>2^63 - 1\<close>, or \<open>2^63\<close> after a minus sign.
\<close>

definition ParseInt :: "string \<Rightarrow> 64 word returned" where
  "ParseInt s =
     (if s = [] then Error ''strconv.ParseInt: invalid syntax''
      else
        let neg = (hd s = CHR ''-'');
            s1 = (if hd s = CHR ''+'' \<or> hd s = CHR ''-'' then tl s else s)
        in case ParseUint s1 of
             Inl ErrSyntax \<Rightarrow> Error ''strconv.ParseInt: invalid syntax''
           | Inl ErrRange \<Rightarrow> Error ''strconv.ParseInt: value out of range''
           | Inr un \<Rightarrow>
               if \<not> neg \<and> un \<ge> 2 ^ 63 then Error ''strconv.ParseInt: value out of range''
               else if neg \<and> un > 2 ^ 63 then Error ''strconv.ParseInt: value out of range''
               else Value (if neg then - of_nat un else of_nat un))"

text \<open>\<open>strings.IndexRune(s, r)\<close> for an ASCII rune: the first index of the byte, or -1.\<close>

fun IndexRune :: "string \<Rightarrow> char \<Rightarrow> int" where
  "IndexRune [] r = -1"
| "IndexRune (c # cs) r =
     (if c = r then 0 else let i = IndexRune cs r in if i < 0 then -1 else i + 1)"

text \<open>
  The codec \<open>h\<close> is a \<open>hashids.HashID\<close> with salt \<open>vulcan2020\<close> and minimum length 18,
  built by \<open>init\<close>. The hashids library is not part of the package: \<open>EncodeId\<close> and
  \<open>DecodeId\<close> take its two methods, \<open>EncodeInt64\<close> and \<open>DecodeInt64WithError\<close>, as
  parameters. The error messages of the package carry the id or the string as well.
\<close>

definition EncodeId :: "(64 word list \<Rightarrow> string returned) \<Rightarrow> 64 word \<Rightarrow> string returned" where
  "EncodeId EncodeInt64 ident =
     (if sint ident < 0 then Value (FormatInt ident)
      else
        case EncodeInt64 [ident] of
          Error e \<Rightarrow> Error ''HashID encode failed.''
        | Value str \<Rightarrow> Value str)"

definition DecodeId :: "(string \<Rightarrow> 64 word list returned) \<Rightarrow> string \<Rightarrow> 64 word returned" where
  "DecodeId DecodeInt64WithError str =
     (if IndexRune str CHR ''-'' = 0 then ParseInt str
      else
        case DecodeInt64WithError str of
          Error e \<Rightarrow> Error ''HashID decode failed.''
        | Value ids \<Rightarrow>
            if length ids = 0 then Error ''HashID decode failed.'' else Value (ids ! 0))"

text \<open>
  Modelled from the spec: the hashids library is not among the sources. The spec calls
  it a reversible integer-to-string codec, used for non-negative ids. For a non-negative
  number the codec encodes without error, the code does not begin with a minus sign (the
  alphabet of hashids has none), and decoding the code gives the number back.
\<close>

definition reversible_codec ::
  "(64 word list \<Rightarrow> string returned) \<Rightarrow> (string \<Rightarrow> 64 word list returned) \<Rightarrow> bool" where
  "reversible_codec enc dec =
     (\<forall>n. 0 \<le> sint n \<longrightarrow>
        (\<exists>str. enc [n] = Value str \<and> IndexRune str CHR ''-'' \<noteq> 0 \<and> dec str = Value [n]))"

subsection \<open>Decimal strings round trip\<close>

lemma ParseUint_loop_append:
  "ParseUint_loop (xs @ ys) n =
     (case ParseUint_loop xs n of Inl e \<Rightarrow> Inl e | Inr n' \<Rightarrow> ParseUint_loop ys n')"
  by (induction xs arbitrary: n) (simp_all add: Let_def)

lemma ParseUint_loop_digit:
  assumes "d < 10" "n * 10 + d < 2 ^ 64"
  shows "ParseUint_loop [char_of (48 + d)] n = Inr (n * 10 + d)"
proof -
  have c: "of_char (char_of (48 + d)) = 48 + d" using assms(1) by simp
  have "n < (2 ^ 64 - 1) div 10 + 1" using assms(2) by simp
  then show ?thesis using assms by (simp add: c Let_def)
qed

lemma Itoa_nonempty: "Itoa m \<noteq> []"
  by (subst Itoa.simps) simp

lemma ParseUint_loop_Itoa:
  "m < 2 ^ 64 \<Longrightarrow> ParseUint_loop (Itoa m) 0 = Inr m"
proof (induction m rule: Itoa.induct)
  case (1 n)
  show ?case
  proof (cases "n < 10")
    case True
    have "Itoa n = [char_of (48 + n)]" using True by (subst Itoa.simps) simp
    with ParseUint_loop_digit [of n 0] True "1.prems" show ?thesis by simp
  next
    case False
    have i: "Itoa n = Itoa (n div 10) @ [char_of (48 + n mod 10)]"
      using False by (subst Itoa.simps) simp
    have "n div 10 < 2 ^ 64" using "1.prems" by simp
    with "1.IH" False have ih: "ParseUint_loop (Itoa (n div 10)) 0 = Inr (n div 10)" by simp
    have "n div 10 * 10 + n mod 10 = n" by simp
    with ParseUint_loop_digit [of "n mod 10" "n div 10"] "1.prems"
    have "ParseUint_loop [char_of (48 + n mod 10)] (n div 10) = Inr n" by simp
    with i ih show ?thesis by (simp add: ParseUint_loop_append)
  qed
qed

lemma ParseUint_Itoa: "m < 2 ^ 64 \<Longrightarrow> ParseUint (Itoa m) = Inr m"
  by (simp add: ParseUint_def Itoa_nonempty ParseUint_loop_Itoa)

lemma ParseInt_FormatInt_negative:
  assumes "sint x < 0"
  shows "IndexRune (FormatInt x) CHR ''-'' = 0 \<and> ParseInt (FormatInt x) = Value x"
proof -
  define m where "m = nat (- sint x)"
  have lo: "- (2 ^ 63) \<le> sint x" using sint_ge [of x] by simp
  have m: "0 < m" "m \<le> 2 ^ 63" using assms lo by (simp_all add: m_def)
  then have m64: "m < 2 ^ 64" by simp
  have f: "FormatInt x = CHR ''-'' # Itoa m" using assms by (simp add: FormatInt_def m_def)
  have "int m = - sint x" using assms by (simp add: m_def)
  then have "(of_int (int m) :: 64 word) = of_int (- sint x)" by simp
  then have "(of_nat m :: 64 word) = - x" by simp
  then have v: "- (of_nat m :: 64 word) = x" by simp
  have "ParseInt (FormatInt x) = Value (- of_nat m)"
    using m by (simp add: f ParseInt_def ParseUint_Itoa [OF m64] Let_def)
  with v f show ?thesis by simp
qed

text \<open>
  C5. With a codec that is reversible on non-negative numbers, \<open>EncodeId\<close> returns a
  string for every \<open>int64\<close> value and \<open>DecodeId\<close> of that string returns the value: a
  negative id becomes its decimal string, which begins with the minus sign and is parsed
  back; a non-negative id goes through the codec.
\<close>

theorem DecodeId_EncodeId:
  assumes "reversible_codec enc dec"
  shows "\<exists>str. EncodeId enc x = Value str \<and> DecodeId dec str = Value x"
proof (cases "sint x < 0")
  case True
  from ParseInt_FormatInt_negative [OF True] True show ?thesis
    by (simp add: EncodeId_def DecodeId_def)
next
  case False
  then have "0 \<le> sint x" by simp
  with assms obtain str where
    "enc [x] = Value str" "IndexRune str CHR ''-'' \<noteq> 0" "dec str = Value [x]"
    unfolding reversible_codec_def by blast
  with False show ?thesis by (simp add: EncodeId_def DecodeId_def)
qed

text \<open>A stand-in codec for concrete instances: the letter \<open>n\<close>, then the decimal digits.\<close>

definition decimal_enc :: "64 word list \<Rightarrow> string returned" where
  "decimal_enc numbers =
     (case numbers of
        [n] \<Rightarrow> if sint n < 0 then Error ''negative number'' else Value (CHR ''n'' # Itoa (nat (sint n)))
      | _ \<Rightarrow> Error ''one number expected'')"

definition decimal_dec :: "string \<Rightarrow> 64 word list returned" where
  "decimal_dec str =
     (case str of
        [] \<Rightarrow> Error ''empty''
      | c # ds \<Rightarrow>
          if c = CHR ''n'' then
            (case ParseUint ds of Inl e \<Rightarrow> Error ''not a number'' | Inr m \<Rightarrow> Value [of_nat m])
          else Error ''not a code'')"

lemma decimal_codec_reversible: "reversible_codec decimal_enc decimal_dec"
proof -
  have "\<exists>str. decimal_enc [n] = Value str \<and> IndexRune str CHR ''-'' \<noteq> 0 \<and>
           decimal_dec str = Value [n]" if nn: "0 \<le> sint n" for n :: "64 word"
  proof -
    define m where "m = nat (sint n)"
    have "sint n < 2 ^ 63" using sint_lt [of n] by simp
    then have m64: "m < 2 ^ 64" using nn by (simp add: m_def)
    have "(of_int (int m) :: 64 word) = of_int (sint n)" using nn by (simp add: m_def)
    then have v: "(of_nat m :: 64 word) = n" by simp
    have e: "decimal_enc [n] = Value (CHR ''n'' # Itoa m)"
      using nn by (simp add: decimal_enc_def m_def)
    have i: "IndexRune (CHR ''n'' # Itoa m) CHR ''-'' \<noteq> 0" by (simp add: Let_def)
    have d: "decimal_dec (CHR ''n'' # Itoa m) = Value [n]"
      by (simp add: decimal_dec_def ParseUint_Itoa [OF m64] v)
    from e i d show ?thesis by blast
  qed
  then show ?thesis unfolding reversible_codec_def by blast
qed

theorem DecodeId_EncodeId_witness:
  "reversible_codec decimal_enc decimal_dec \<and>
   (\<exists>str. EncodeId decimal_enc 0 = Value str \<and> DecodeId decimal_dec str = Value 0) \<and>
   (\<exists>str. EncodeId decimal_enc 1 = Value str \<and> DecodeId decimal_dec str = Value 1) \<and>
   (\<exists>str. EncodeId decimal_enc (- 1) = Value str \<and> DecodeId decimal_dec str = Value (- 1)) \<and>
   (\<exists>str. EncodeId decimal_enc 9223372036854775807 = Value str \<and>
          DecodeId decimal_dec str = Value 9223372036854775807) \<and>
   (\<exists>str. EncodeId decimal_enc (- 9223372036854775808) = Value str \<and>
          DecodeId decimal_dec str = Value (- 9223372036854775808))"
  using decimal_codec_reversible
    DecodeId_EncodeId [OF decimal_codec_reversible, of 0]
    DecodeId_EncodeId [OF decimal_codec_reversible, of 1]
    DecodeId_EncodeId [OF decimal_codec_reversible, of "- 1"]
    DecodeId_EncodeId [OF decimal_codec_reversible, of 9223372036854775807]
    DecodeId_EncodeId [OF decimal_codec_reversible, of "- 9223372036854775808"]
  by blast

end
